theory Spec2Isabelle
  imports Main "HOL-Library.Word"
begin

unbundle bit_operations_syntax

section \<open>Unicode pre-tokenization core (llama/unicode.cpp)\<close>

text \<open>
  A shallow embedding of \<^verbatim>\<open>src/llama/unicode.cpp\<close>. A \<^verbatim>\<open>std::string\<close> is a list of bytes,
  a codepoint a 32-bit word (\<^verbatim>\<open>uint32_t\<close>), a \<^verbatim>\<open>size_t\<close> position a natural number (positions
  never exceed the length of the text). Every \<^verbatim>\<open>throw\<close> and every \<^verbatim>\<open>assert\<close> of the source is a
  branch returning \<open>Inl\<close> of an error.
\<close>

subsection \<open>Errors\<close>

text \<open>
  The exceptions of the source, named as in the specification:
  \<^item> \<open>InvalidUtf8\<close>: \<^verbatim>\<open>std::invalid_argument("invalid character")\<close> and
    \<^verbatim>\<open>std::invalid_argument("failed to convert utf8 to codepoint")\<close>;
  \<^item> \<open>InvalidCodepoint\<close>: \<^verbatim>\<open>std::invalid_argument("invalid codepoint")\<close>;
  \<^item> \<open>UnknownEncodedByte\<close>: \<^verbatim>\<open>std::out_of_range\<close> of \<^verbatim>\<open>map.at\<close>;
  \<^item> \<open>MixedCategoryAndLiteral\<close>: \<^verbatim>\<open>std::runtime_error("Regex includes both unicode categories
    and non-ASCII characters - not supported")\<close>;
  \<^item> \<open>RegexFailure\<close>: \<^verbatim>\<open>std::runtime_error("Failed to process regex")\<close>;
  \<^item> \<open>RegexError\<close>: a \<^verbatim>\<open>std::regex_error\<close> thrown by the regex library;
  \<^item> \<open>RangeError\<close>: a \<^verbatim>\<open>std::range_error\<close> thrown by \<^verbatim>\<open>std::wstring_convert\<close>;
  \<^item> \<open>AssertionFailed\<close>: a failed \<^verbatim>\<open>assert\<close>;
  \<^item> \<open>OutOfRange\<close>: \<^verbatim>\<open>std::out_of_range\<close> of \<^verbatim>\<open>at\<close> on one of the constant maps;
  \<^item> \<open>OutOfBounds\<close>: a read outside a container, which the source does not check.
\<close>

datatype error =
    InvalidUtf8
  | InvalidCodepoint
  | UnknownEncodedByte
  | MixedCategoryAndLiteral
  | RegexFailure
  | RegexError
  | RangeError
  | AssertionFailed
  | OutOfRange
  | OutOfBounds

subsection \<open>UTF-8 codec\<close>

type_synonym byte = "8 word"
type_synonym cpt = "32 word"

text \<open>
  The integral promotion of a \<^verbatim>\<open>char\<close> to \<^verbatim>\<open>int\<close>. \<^verbatim>\<open>char\<close> is signed on x86-64, so the
  promotion extends the sign; every use below masks the promoted value, which makes the
  result the same where \<^verbatim>\<open>char\<close> is unsigned.
\<close>

definition char_int :: "byte \<Rightarrow> 32 word" where
  "char_int c = scast c"

definition unicode_cpt_to_utf8 :: "cpt \<Rightarrow> error + byte list" where
  "unicode_cpt_to_utf8 cp =
    (if cp \<le> 0x7f then Inr [ucast cp]
     else if 0x80 \<le> cp \<and> cp \<le> 0x7ff then
       Inr [ucast (0xc0 OR (drop_bit 6 cp AND 0x1f)), ucast (0x80 OR (cp AND 0x3f))]
     else if 0x800 \<le> cp \<and> cp \<le> 0xffff then
       Inr [ucast (0xe0 OR (drop_bit 12 cp AND 0x0f)), ucast (0x80 OR (drop_bit 6 cp AND 0x3f)),
            ucast (0x80 OR (cp AND 0x3f))]
     else if 0x10000 \<le> cp \<and> cp \<le> 0x10ffff then
       Inr [ucast (0xf0 OR (drop_bit 18 cp AND 0x07)), ucast (0x80 OR (drop_bit 12 cp AND 0x3f)),
            ucast (0x80 OR (drop_bit 6 cp AND 0x3f)), ucast (0x80 OR (cp AND 0x3f))]
     else Inl InvalidCodepoint)"

definition unicode_cpt_from_utf8 :: "byte list \<Rightarrow> nat \<Rightarrow> error + (cpt \<times> nat)" where
  "unicode_cpt_from_utf8 utf8 offset =
    (if \<not> offset < length utf8 then Inl AssertionFailed
     else if char_int (utf8 ! offset) AND 0x80 = 0 then
       Inr (char_int (utf8 ! offset), offset + 1)
     else if char_int (utf8 ! offset) AND 0x40 = 0 then Inl InvalidUtf8
     else if char_int (utf8 ! offset) AND 0x20 = 0 then
       (if offset + 1 \<ge> length utf8 \<or> \<not> (char_int (utf8 ! (offset + 1)) AND 0xc0 = 0x80)
        then Inl InvalidUtf8
        else Inr (push_bit 6 (char_int (utf8 ! offset) AND 0x1f)
                  OR (char_int (utf8 ! (offset + 1)) AND 0x3f), offset + 2))
     else if char_int (utf8 ! offset) AND 0x10 = 0 then
       (if offset + 2 \<ge> length utf8 \<or> \<not> (char_int (utf8 ! (offset + 1)) AND 0xc0 = 0x80)
           \<or> \<not> (char_int (utf8 ! (offset + 2)) AND 0xc0 = 0x80)
        then Inl InvalidUtf8
        else Inr (push_bit 12 (char_int (utf8 ! offset) AND 0x0f)
                  OR push_bit 6 (char_int (utf8 ! (offset + 1)) AND 0x3f)
                  OR (char_int (utf8 ! (offset + 2)) AND 0x3f), offset + 3))
     else if char_int (utf8 ! offset) AND 0x08 = 0 then
       (if offset + 3 \<ge> length utf8 \<or> \<not> (char_int (utf8 ! (offset + 1)) AND 0xc0 = 0x80)
           \<or> \<not> (char_int (utf8 ! (offset + 2)) AND 0xc0 = 0x80)
           \<or> \<not> (char_int (utf8 ! (offset + 3)) AND 0xc0 = 0x80)
        then Inl InvalidUtf8
        else Inr (push_bit 18 (char_int (utf8 ! offset) AND 0x07)
                  OR push_bit 12 (char_int (utf8 ! (offset + 1)) AND 0x3f)
                  OR push_bit 6 (char_int (utf8 ! (offset + 2)) AND 0x3f)
                  OR (char_int (utf8 ! (offset + 3)) AND 0x3f), offset + 4))
     else Inl InvalidUtf8)"

function cpts_loop :: "byte list \<Rightarrow> nat \<Rightarrow> cpt list \<Rightarrow> error + cpt list" where
  "cpts_loop utf8 offset result =
    (if offset < length utf8 then
       (case unicode_cpt_from_utf8 utf8 offset of
          Inl e \<Rightarrow> Inl e
        | Inr (c, offset') \<Rightarrow> cpts_loop utf8 offset' (result @ [c]))
     else Inr result)"
  by pat_completeness auto
termination
  by (relation "measure (\<lambda>(utf8, offset, result). length utf8 - offset)")
     (auto simp: unicode_cpt_from_utf8_def split: if_splits)

declare cpts_loop.simps [simp del]

definition unicode_cpts_from_utf8 :: "byte list \<Rightarrow> error + cpt list" where
  "unicode_cpts_from_utf8 utf8 = cpts_loop utf8 0 []"



subsection \<open>Unicode property table\<close>

text \<open>
  Modelled from the spec: \<^verbatim>\<open>struct codepoint_flags\<close> is declared in \<^verbatim>\<open>unicode.h\<close>, which is not
  among the sources. Section 3 of the specification gives its content: one bit for each of
  the categories \<^verbatim>\<open>UNDEFINED, NUMBER, LETTER, SEPARATOR, ACCENT_MARK, PUNCTUATION, SYMBOL,
  CONTROL\<close>, and the helper bits \<^verbatim>\<open>is_whitespace, is_lowercase, is_uppercase, is_nfd\<close>. The category
  enumerators are taken as successive bits in the order of the specification.
\<close>

record codepoint_flags =
  is_undefined :: bool
  is_number :: bool
  is_letter :: bool
  is_separator :: bool
  is_accent_mark :: bool
  is_punctuation :: bool
  is_symbol :: bool
  is_control :: bool
  is_whitespace :: bool
  is_lowercase :: bool
  is_uppercase :: bool
  is_nfd :: bool

definition no_flags :: codepoint_flags where
  "no_flags = \<lparr>is_undefined = False, is_number = False, is_letter = False,
     is_separator = False, is_accent_mark = False, is_punctuation = False, is_symbol = False,
     is_control = False, is_whitespace = False, is_lowercase = False, is_uppercase = False,
     is_nfd = False\<rparr>"

text \<open>\<^verbatim>\<open>codepoint_flags undef(codepoint_flags::UNDEFINED)\<close>: only the lowest bit is set.\<close>

definition undef :: codepoint_flags where
  "undef = no_flags\<lparr>is_undefined := True\<rparr>"

definition UNDEFINED :: nat where "UNDEFINED = 0x0001"
definition NUMBER :: nat where "NUMBER = 0x0002"
definition LETTER :: nat where "LETTER = 0x0004"
definition SEPARATOR :: nat where "SEPARATOR = 0x0008"
definition ACCENT_MARK :: nat where "ACCENT_MARK = 0x0010"
definition PUNCTUATION :: nat where "PUNCTUATION = 0x0020"
definition SYMBOL :: nat where "SYMBOL = 0x0040"
definition CONTROL :: nat where "CONTROL = 0x0080"

text \<open>\<^verbatim>\<open>category_flag()\<close>: the flags as an integer, masked with \<^verbatim>\<open>MASK_CATEGORIES\<close>.\<close>

definition category_flag :: "codepoint_flags \<Rightarrow> nat" where
  "category_flag f =
     (if is_undefined f then UNDEFINED else 0) + (if is_number f then NUMBER else 0)
   + (if is_letter f then LETTER else 0) + (if is_separator f then SEPARATOR else 0)
   + (if is_accent_mark f then ACCENT_MARK else 0) + (if is_punctuation f then PUNCTUATION else 0)
   + (if is_symbol f then SYMBOL else 0) + (if is_control f then CONTROL else 0)"

text \<open>
  The tables of \<^verbatim>\<open>unicode-data.cpp\<close> are not among the sources; the functions below take
  them as parameters: the flag array built by \<^verbatim>\<open>unicode_cpt_flags_array\<close> (a function on the
  codepoints below \<^verbatim>\<open>MAX_CODEPOINTS\<close>), \<^verbatim>\<open>unicode_map_lowercase\<close> and \<^verbatim>\<open>unicode_ranges_nfd\<close>.
\<close>

type_synonym flags_table = "cpt \<Rightarrow> codepoint_flags"

text \<open>
  Modelled from the spec: \<^verbatim>\<open>MAX_CODEPOINTS\<close> is declared in \<^verbatim>\<open>unicode-data.h\<close>, which is not among
  the sources. Section 4.2 of the specification gives the size of the flag array, \<open>0x110000\<close>.
\<close>

definition MAX_CODEPOINTS :: cpt where
  "MAX_CODEPOINTS = 0x110000"

definition unicode_cpt_flags :: "flags_table \<Rightarrow> cpt \<Rightarrow> codepoint_flags" where
  "unicode_cpt_flags cpt_flags cp = (if cp < MAX_CODEPOINTS then cpt_flags cp else undef)"

definition unicode_tolower :: "(cpt \<rightharpoonup> cpt) \<Rightarrow> cpt \<Rightarrow> cpt" where
  "unicode_tolower unicode_map_lowercase cp =
     (case unicode_map_lowercase cp of None \<Rightarrow> cp | Some l \<Rightarrow> l)"

subsection \<open>NFD normalization\<close>

record range_nfd =
  range_first :: cpt
  range_last :: cpt
  nfd :: cpt

text \<open>
  \<^verbatim>\<open>std::upper_bound(begin, end, cpt, comp)\<close> with \<^verbatim>\<open>comp(cpt, range) = cpt < range.first\<close>: the
  index of the first range for which \<^verbatim>\<open>comp\<close> holds, the length of the table when there is
  none. This is what the library returns on a table sorted by \<^verbatim>\<open>first\<close>.
\<close>

definition upper_bound :: "range_nfd list \<Rightarrow> cpt \<Rightarrow> nat" where
  "upper_bound ranges cpt = length (takeWhile (\<lambda>range. \<not> cpt < range_first range) ranges)"

text \<open>
  The loop of \<^verbatim>\<open>unicode_cpts_normalize_nfd\<close>. The iterator \<^verbatim>\<open>upper_bound(...) - 1\<close> is outside
  the table when \<^verbatim>\<open>upper_bound\<close> returns \<^verbatim>\<open>cbegin()\<close>; the source reads it unchecked, the model
  returns \<open>OutOfBounds\<close>.
\<close>

function normalize_nfd_loop ::
  "range_nfd list \<Rightarrow> cpt list \<Rightarrow> nat \<Rightarrow> cpt list \<Rightarrow> error + cpt list" where
  "normalize_nfd_loop ranges cpts i result =
    (if i < length cpts then
       (let cpt = cpts ! i; ub = upper_bound ranges cpt in
        if ub = 0 then Inl OutOfBounds
        else
          (let it = ranges ! (ub - 1) in
           normalize_nfd_loop ranges cpts (i + 1)
             (result[i := (if range_first it \<le> cpt \<and> cpt \<le> range_last it then nfd it else cpt)])))
     else Inr result)"
  by pat_completeness auto
termination
  by (relation "measure (\<lambda>(ranges, cpts, i, result). length cpts - i)") auto

declare normalize_nfd_loop.simps [simp del]

definition unicode_cpts_normalize_nfd :: "range_nfd list \<Rightarrow> cpt list \<Rightarrow> error + cpt list" where
  "unicode_cpts_normalize_nfd ranges cpts =
     normalize_nfd_loop ranges cpts 0 (replicate (length cpts) 0)"

subsection \<open>Byte encoder\<close>

text \<open>
  \<^verbatim>\<open>unicode_byte_to_utf8_map\<close>: three seeding loops, then the loop that gives every byte
  not yet in the map the next codepoint from 256 on. The key of type \<^verbatim>\<open>uint8_t\<close> is the
  \<^verbatim>\<open>int\<close> loop variable converted.
\<close>

fun byte_to_utf8_seed ::
  "int list \<Rightarrow> (byte \<rightharpoonup> byte list) \<Rightarrow> error + (byte \<rightharpoonup> byte list)" where
  "byte_to_utf8_seed [] m = Inr m"
| "byte_to_utf8_seed (ch # chs) m =
    (if \<not> (0 \<le> ch \<and> ch < 256) then Inl AssertionFailed
     else (case unicode_cpt_to_utf8 (word_of_int ch) of
             Inl e \<Rightarrow> Inl e
           | Inr s \<Rightarrow> byte_to_utf8_seed chs (m(word_of_int ch \<mapsto> s))))"

fun byte_to_utf8_fill ::
  "int list \<Rightarrow> (byte \<rightharpoonup> byte list) \<Rightarrow> int \<Rightarrow> error + (byte \<rightharpoonup> byte list) \<times> int" where
  "byte_to_utf8_fill [] m n = Inr (m, n)"
| "byte_to_utf8_fill (ch # chs) m n =
    (if m (word_of_int ch) = None then
       (case unicode_cpt_to_utf8 (word_of_int (256 + n)) of
          Inl e \<Rightarrow> Inl e
        | Inr s \<Rightarrow> byte_to_utf8_fill chs (m(word_of_int ch \<mapsto> s)) (n + 1))
     else byte_to_utf8_fill chs m n)"

definition unicode_byte_to_utf8_map :: "error + (byte \<rightharpoonup> byte list)" where
  "unicode_byte_to_utf8_map =
    (case byte_to_utf8_seed [0x21..0x7E] Map.empty of Inl e \<Rightarrow> Inl e | Inr m1 \<Rightarrow>
     (case byte_to_utf8_seed [0xA1..0xAC] m1 of Inl e \<Rightarrow> Inl e | Inr m2 \<Rightarrow>
     (case byte_to_utf8_seed [0xAE..0xFF] m2 of Inl e \<Rightarrow> Inl e | Inr m3 \<Rightarrow>
     (case byte_to_utf8_fill [0..255] m3 0 of Inl e \<Rightarrow> Inl e | Inr (m4, n) \<Rightarrow> Inr m4))))"

text \<open>\<^verbatim>\<open>unicode_utf8_to_byte_map\<close>: the same loops, with the UTF-8 string as the key.\<close>

fun utf8_to_byte_seed ::
  "int list \<Rightarrow> (byte list \<rightharpoonup> byte) \<Rightarrow> error + (byte list \<rightharpoonup> byte)" where
  "utf8_to_byte_seed [] m = Inr m"
| "utf8_to_byte_seed (ch # chs) m =
    (if \<not> (0 \<le> ch \<and> ch < 256) then Inl AssertionFailed
     else (case unicode_cpt_to_utf8 (word_of_int ch) of
             Inl e \<Rightarrow> Inl e
           | Inr s \<Rightarrow> utf8_to_byte_seed chs (m(s \<mapsto> word_of_int ch))))"

fun utf8_to_byte_fill ::
  "int list \<Rightarrow> (byte list \<rightharpoonup> byte) \<Rightarrow> int \<Rightarrow> error + (byte list \<rightharpoonup> byte) \<times> int" where
  "utf8_to_byte_fill [] m n = Inr (m, n)"
| "utf8_to_byte_fill (ch # chs) m n =
    (case unicode_cpt_to_utf8 (word_of_int ch) of
       Inl e \<Rightarrow> Inl e
     | Inr k \<Rightarrow>
        (if m k = None then
           (case unicode_cpt_to_utf8 (word_of_int (256 + n)) of
              Inl e \<Rightarrow> Inl e
            | Inr s \<Rightarrow> utf8_to_byte_fill chs (m(s \<mapsto> word_of_int ch)) (n + 1))
         else utf8_to_byte_fill chs m n))"

definition unicode_utf8_to_byte_map :: "error + (byte list \<rightharpoonup> byte)" where
  "unicode_utf8_to_byte_map =
    (case utf8_to_byte_seed [0x21..0x7E] Map.empty of Inl e \<Rightarrow> Inl e | Inr m1 \<Rightarrow>
     (case utf8_to_byte_seed [0xA1..0xAC] m1 of Inl e \<Rightarrow> Inl e | Inr m2 \<Rightarrow>
     (case utf8_to_byte_seed [0xAE..0xFF] m2 of Inl e \<Rightarrow> Inl e | Inr m3 \<Rightarrow>
     (case utf8_to_byte_fill [0..255] m3 0 of Inl e \<Rightarrow> Inl e | Inr (m4, n) \<Rightarrow> Inr m4))))"

text \<open>\<^verbatim>\<open>map.at(key)\<close> throws \<^verbatim>\<open>std::out_of_range\<close> on a key that is not in the map.\<close>

definition unicode_byte_to_utf8 :: "byte \<Rightarrow> error + byte list" where
  "unicode_byte_to_utf8 b =
    (case unicode_byte_to_utf8_map of
       Inl e \<Rightarrow> Inl e
     | Inr m \<Rightarrow> (case m b of None \<Rightarrow> Inl UnknownEncodedByte | Some s \<Rightarrow> Inr s))"

definition unicode_utf8_to_byte :: "byte list \<Rightarrow> error + byte" where
  "unicode_utf8_to_byte utf8 =
    (case unicode_utf8_to_byte_map of
       Inl e \<Rightarrow> Inl e
     | Inr m \<Rightarrow> (case m utf8 of None \<Rightarrow> Inl UnknownEncodedByte | Some b \<Rightarrow> Inr b))"

subsection \<open>The state shared by the two hand-written splitters\<close>

text \<open>
  What the lambdas \<^verbatim>\<open>_get_cpt\<close>, \<^verbatim>\<open>_get_flags\<close> and \<^verbatim>\<open>_add_token\<close> capture: the codepoints of
  the text and the bounds of the current segment (read only), and the output list with
  \<^verbatim>\<open>_prev_end\<close> (written by \<^verbatim>\<open>_add_token\<close>).
\<close>

record segment =
  cpts_of :: "cpt list"
  offset_ini :: nat
  offset_end :: nat

record tokens =
  bpe_offsets :: "nat list"
  prev_end :: nat

definition get_cpt :: "segment \<Rightarrow> nat \<Rightarrow> cpt" where
  "get_cpt S pos =
     (if offset_ini S \<le> pos \<and> pos < offset_end S then cpts_of S ! pos else 0)"

definition get_flags :: "flags_table \<Rightarrow> segment \<Rightarrow> nat \<Rightarrow> codepoint_flags" where
  "get_flags T S pos =
     (if offset_ini S \<le> pos \<and> pos < offset_end S then unicode_cpt_flags T (cpts_of S ! pos)
      else undef)"

definition add_token :: "segment \<Rightarrow> nat \<Rightarrow> tokens \<Rightarrow> error + nat \<times> tokens" where
  "add_token S end st =
     (if \<not> (prev_end st \<le> end \<and> end \<le> offset_end S) then Inl AssertionFailed
      else
        (let len = end - prev_end st in
         Inr (len, \<lparr>bpe_offsets = (if len > 0 then bpe_offsets st @ [len] else bpe_offsets st),
                    prev_end = end\<rparr>)))"

text \<open>The class \<^verbatim>\<open>[^\s\p{L}\p{N}]\<close> as both splitters test it.\<close>

definition is_other :: "codepoint_flags \<Rightarrow> bool" where
  "is_other flags2 =
     (\<not> (is_whitespace flags2 \<or> is_letter flags2 \<or> is_number flags2 \<or> is_undefined flags2))"

subsection \<open>GPT-2 splitter\<close>

text \<open>\<^verbatim>\<open>while (flags2.is_letter) { flags2 = _get_flags(++pos); }\<close>, and the two loops of the
  same shape for numbers and for the other class. Each returns the final \<^verbatim>\<open>pos\<close>.\<close>

function skip_letters :: "flags_table \<Rightarrow> segment \<Rightarrow> codepoint_flags \<Rightarrow> nat \<Rightarrow> nat" where
  "skip_letters T S flags2 pos =
     (if is_letter flags2 then skip_letters T S (get_flags T S (pos + 1)) (pos + 1) else pos)"
  by pat_completeness auto
termination
  by (relation "measure (\<lambda>(T, S, flags2, pos).
        2 * (offset_end S - pos) + (if is_letter flags2 then 1 else 0))")
     (auto simp: get_flags_def undef_def no_flags_def)

function skip_numbers :: "flags_table \<Rightarrow> segment \<Rightarrow> codepoint_flags \<Rightarrow> nat \<Rightarrow> nat" where
  "skip_numbers T S flags2 pos =
     (if is_number flags2 then skip_numbers T S (get_flags T S (pos + 1)) (pos + 1) else pos)"
  by pat_completeness auto
termination
  by (relation "measure (\<lambda>(T, S, flags2, pos).
        2 * (offset_end S - pos) + (if is_number flags2 then 1 else 0))")
     (auto simp: get_flags_def undef_def no_flags_def)

function skip_others :: "flags_table \<Rightarrow> segment \<Rightarrow> codepoint_flags \<Rightarrow> nat \<Rightarrow> nat" where
  "skip_others T S flags2 pos =
     (if is_other flags2 then skip_others T S (get_flags T S (pos + 1)) (pos + 1) else pos)"
  by pat_completeness auto
termination
  by (relation "measure (\<lambda>(T, S, flags2, pos).
        2 * (offset_end S - pos) + (if is_other flags2 then 1 else 0))")
     (auto simp: get_flags_def undef_def no_flags_def is_other_def)

text \<open>\<^verbatim>\<open>while (_get_flags(pos+num_whitespaces).is_whitespace) { num_whitespaces++; }\<close>\<close>

function count_whitespaces :: "flags_table \<Rightarrow> segment \<Rightarrow> nat \<Rightarrow> nat \<Rightarrow> nat" where
  "count_whitespaces T S pos num_whitespaces =
     (if is_whitespace (get_flags T S (pos + num_whitespaces))
      then count_whitespaces T S pos (num_whitespaces + 1) else num_whitespaces)"
  by pat_completeness auto
termination
  by (relation "measure (\<lambda>(T, S, pos, num_whitespaces). offset_end S - (pos + num_whitespaces))")
     (auto simp: get_flags_def undef_def no_flags_def split: if_splits)

declare skip_letters.simps [simp del] skip_numbers.simps [simp del] skip_others.simps [simp del]
  count_whitespaces.simps [simp del]

text \<open>
  The contraction test \<^verbatim>\<open>'s|'t|'re|'ve|'m|'ll|'d\<close> at \<^verbatim>\<open>pos\<close>: the length of the token that
  the branch emits (2 or 3), or \<open>None\<close> when control falls through to the next rule.
\<close>

definition gpt2_contraction :: "segment \<Rightarrow> nat \<Rightarrow> nat option" where
  "gpt2_contraction S pos =
    (if get_cpt S pos = 0x27 \<and> pos + 1 < offset_end S then
       (let cpt_next = get_cpt S (pos + 1) in
        if cpt_next = 0x73 \<or> cpt_next = 0x74 \<or> cpt_next = 0x6D \<or> cpt_next = 0x64 then Some 2
        else if pos + 2 < offset_end S then
          (let cpt_next_next = get_cpt S (pos + 2) in
           if (cpt_next = 0x72 \<and> cpt_next_next = 0x65) \<or>
              (cpt_next = 0x76 \<and> cpt_next_next = 0x65) \<or>
              (cpt_next = 0x6C \<and> cpt_next_next = 0x6C) then Some 3
           else None)
        else None)
     else None)"

text \<open>
  One iteration of \<^verbatim>\<open>for (size_t pos = offset_ini; pos < offset_end; )\<close>, up to its
  \<^verbatim>\<open>continue\<close>: the new \<^verbatim>\<open>pos\<close> and the state that \<^verbatim>\<open>_add_token\<close> leaves.
\<close>

definition gpt2_step :: "flags_table \<Rightarrow> segment \<Rightarrow> nat \<Rightarrow> tokens \<Rightarrow> error + nat \<times> tokens" where
  "gpt2_step T S pos st =
    (let cpt = get_cpt S pos; flags = get_flags T S pos in
     case gpt2_contraction S pos of
       Some k \<Rightarrow>
         (case add_token S (pos + k) st of
            Inl e \<Rightarrow> Inl e
          | Inr (len, st') \<Rightarrow> Inr (pos + len, st'))
     | None \<Rightarrow>
         (let flags2 = (if cpt = 0x20 then get_flags T S (pos + 1) else flags) in
          if is_letter flags2 then
            (let pos' = skip_letters T S flags2 (pos + (if cpt = 0x20 then 1 else 0)) in
             case add_token S pos' st of Inl e \<Rightarrow> Inl e | Inr (len, st') \<Rightarrow> Inr (pos', st'))
          else if is_number flags2 then
            (let pos' = skip_numbers T S flags2 (pos + (if cpt = 0x20 then 1 else 0)) in
             case add_token S pos' st of Inl e \<Rightarrow> Inl e | Inr (len, st') \<Rightarrow> Inr (pos', st'))
          else if is_other flags2 then
            (let pos' = skip_others T S flags2 (pos + (if cpt = 0x20 then 1 else 0)) in
             case add_token S pos' st of Inl e \<Rightarrow> Inl e | Inr (len, st') \<Rightarrow> Inr (pos', st'))
          else
            (let num_whitespaces = count_whitespaces T S pos 0 in
             if num_whitespaces > 1 \<and> get_cpt S (pos + num_whitespaces) \<noteq> 0 then
               (let pos' = pos + (num_whitespaces - 1) in
                case add_token S pos' st of Inl e \<Rightarrow> Inl e | Inr (len, st') \<Rightarrow> Inr (pos', st'))
             else if num_whitespaces > 0 then
               (let pos' = pos + num_whitespaces in
                case add_token S pos' st of Inl e \<Rightarrow> Inl e | Inr (len, st') \<Rightarrow> Inr (pos', st'))
             else
               (case add_token S (pos + 1) st of
                  Inl e \<Rightarrow> Inl e
                | Inr (len, st') \<Rightarrow> Inr (pos + 1, st')))))"

text \<open>
  The loop itself. Whether it returns depends on \<^verbatim>\<open>_prev_end\<close> (\<^verbatim>\<open>pos += _add_token(pos+2)\<close>
  does not move when the token is empty), so it is a partial function: \<open>None\<close> is a loop
  that does not return.
\<close>

partial_function (option) gpt2_loop ::
  "flags_table \<Rightarrow> segment \<Rightarrow> nat \<Rightarrow> tokens \<Rightarrow> (error + tokens) option" where
  "gpt2_loop T S pos st =
    (if pos < offset_end S then
       (case gpt2_step T S pos st of
          Inl e \<Rightarrow> Some (Inl e)
        | Inr (pos', st') \<Rightarrow> gpt2_loop T S pos' st')
     else Some (Inr st))"

text \<open>\<^verbatim>\<open>for (auto offset : offsets)\<close>, with \<^verbatim>\<open>start\<close> and the output list carried along.\<close>

fun gpt2_segments ::
  "flags_table \<Rightarrow> cpt list \<Rightarrow> nat list \<Rightarrow> nat \<Rightarrow> nat list \<Rightarrow> (error + nat list) option" where
  "gpt2_segments T cpts [] start out = Some (Inr out)"
| "gpt2_segments T cpts (offset # offsets) start out =
    (if \<not> start + offset \<le> length cpts then Some (Inl AssertionFailed)
     else
       (case gpt2_loop T \<lparr>cpts_of = cpts, offset_ini = start, offset_end = start + offset\<rparr> start
               \<lparr>bpe_offsets = out, prev_end = start\<rparr> of
          None \<Rightarrow> None
        | Some (Inl e) \<Rightarrow> Some (Inl e)
        | Some (Inr st) \<Rightarrow> gpt2_segments T cpts offsets (start + offset) (bpe_offsets st)))"

definition unicode_regex_split_custom_gpt2 ::
  "flags_table \<Rightarrow> byte list \<Rightarrow> nat list \<Rightarrow> (error + nat list) option" where
  "unicode_regex_split_custom_gpt2 T text offsets =
    (case unicode_cpts_from_utf8 text of
       Inl e \<Rightarrow> Some (Inl e)
     | Inr cpts \<Rightarrow> gpt2_segments T cpts offsets 0 [])"

subsection \<open>LLaMA-3 splitter\<close>

text \<open>The contraction test, on \<^verbatim>\<open>unicode_tolower\<close> of the following codepoints.\<close>

definition llama3_contraction :: "(cpt \<rightharpoonup> cpt) \<Rightarrow> segment \<Rightarrow> nat \<Rightarrow> nat option" where
  "llama3_contraction L S pos =
    (if get_cpt S pos = 0x27 \<and> pos + 1 < offset_end S then
       (let cpt_next = unicode_tolower L (get_cpt S (pos + 1)) in
        if cpt_next = 0x73 \<or> cpt_next = 0x74 \<or> cpt_next = 0x6D \<or> cpt_next = 0x64 then Some 2
        else if pos + 2 < offset_end S then
          (let cpt_next_next = unicode_tolower L (get_cpt S (pos + 2)) in
           if (cpt_next = 0x72 \<and> cpt_next_next = 0x65) \<or>
              (cpt_next = 0x76 \<and> cpt_next_next = 0x65) \<or>
              (cpt_next = 0x6C \<and> cpt_next_next = 0x6C) then Some 3
           else None)
        else None)
     else None)"

text \<open>\<^verbatim>\<open>while (_get_flags(pos).is_letter) { pos++; }\<close>\<close>

function llama3_letters :: "flags_table \<Rightarrow> segment \<Rightarrow> nat \<Rightarrow> nat" where
  "llama3_letters T S pos =
     (if is_letter (get_flags T S pos) then llama3_letters T S (pos + 1) else pos)"
  by pat_completeness auto
termination
  by (relation "measure (\<lambda>(T, S, pos). offset_end S - pos)")
     (auto simp: get_flags_def undef_def no_flags_def split: if_splits)

text \<open>
  \<^verbatim>\<open>while (_get_flags(pos).is_number) { if (++pos - ini >= 3) { _add_token(pos); ini = pos; } }\<close>
\<close>

function llama3_numbers ::
  "flags_table \<Rightarrow> segment \<Rightarrow> nat \<Rightarrow> nat \<Rightarrow> tokens \<Rightarrow> error + nat \<times> tokens" where
  "llama3_numbers T S pos ini st =
     (if is_number (get_flags T S pos) then
        (if pos + 1 - ini \<ge> 3 then
           (case add_token S (pos + 1) st of
              Inl e \<Rightarrow> Inl e
            | Inr (len, st') \<Rightarrow> llama3_numbers T S (pos + 1) (pos + 1) st')
         else llama3_numbers T S (pos + 1) ini st)
      else Inr (pos, st))"
  by pat_completeness auto
termination
  by (relation "measure (\<lambda>(T, S, pos, ini, st). offset_end S - pos)")
     (auto simp: get_flags_def undef_def no_flags_def split: if_splits)

text \<open>\<^verbatim>\<open>while (cpt2 == '\r' || cpt2 == '\n') { cpt2 = _get_cpt(++pos); }\<close>\<close>

function skip_newlines :: "segment \<Rightarrow> cpt \<Rightarrow> nat \<Rightarrow> nat" where
  "skip_newlines S cpt2 pos =
     (if cpt2 = 0x0D \<or> cpt2 = 0x0A then skip_newlines S (get_cpt S (pos + 1)) (pos + 1) else pos)"
  by pat_completeness auto
termination
  by (relation "measure (\<lambda>(S, cpt2, pos).
        2 * (offset_end S - pos) + (if cpt2 = 0x0D \<or> cpt2 = 0x0A then 1 else 0))")
     (auto simp: get_cpt_def)

text \<open>The whitespace loop, which also records the end of the last \<^verbatim>\<open>\r\<close> or \<^verbatim>\<open>\n\<close>.\<close>

function llama3_whitespaces ::
  "flags_table \<Rightarrow> segment \<Rightarrow> nat \<Rightarrow> nat \<Rightarrow> nat \<Rightarrow> nat \<times> nat" where
  "llama3_whitespaces T S pos num_whitespaces last_end_r_or_n =
     (if is_whitespace (get_flags T S (pos + num_whitespaces)) then
        (let cpt2 = get_cpt S (pos + num_whitespaces) in
         llama3_whitespaces T S pos (num_whitespaces + 1)
           (if cpt2 = 0x0D \<or> cpt2 = 0x0A then pos + num_whitespaces + 1 else last_end_r_or_n))
      else (num_whitespaces, last_end_r_or_n))"
  by pat_completeness auto
termination
  by (relation "measure (\<lambda>(T, S, pos, num_whitespaces, l). offset_end S - (pos + num_whitespaces))")
     (auto simp: get_flags_def undef_def no_flags_def split: if_splits)

declare llama3_letters.simps [simp del] llama3_numbers.simps [simp del]
  skip_newlines.simps [simp del] llama3_whitespaces.simps [simp del]

text \<open>One iteration of the loop, and the loop, as for GPT-2.\<close>

definition llama3_step ::
  "flags_table \<Rightarrow> (cpt \<rightharpoonup> cpt) \<Rightarrow> segment \<Rightarrow> nat \<Rightarrow> tokens \<Rightarrow> error + nat \<times> tokens" where
  "llama3_step T L S pos st =
    (let cpt = get_cpt S pos; flags = get_flags T S pos in
     case llama3_contraction L S pos of
       Some k \<Rightarrow>
         (case add_token S (pos + k) st of
            Inl e \<Rightarrow> Inl e
          | Inr (len, st') \<Rightarrow> Inr (pos + len, st'))
     | None \<Rightarrow>
         if \<not> (cpt = 0x0D \<or> cpt = 0x0A \<or> is_number flags) \<and>
            (is_letter flags \<or> is_letter (get_flags T S (pos + 1))) then
           (let pos' = llama3_letters T S (pos + 1) in
            case add_token S pos' st of Inl e \<Rightarrow> Inl e | Inr (len, st') \<Rightarrow> Inr (pos', st'))
         else if is_number flags then
           (case llama3_numbers T S pos pos st of
              Inl e \<Rightarrow> Inl e
            | Inr (pos', st1) \<Rightarrow>
               (case add_token S pos' st1 of Inl e \<Rightarrow> Inl e | Inr (len, st') \<Rightarrow> Inr (pos', st')))
         else
           (let flags2 = (if cpt = 0x20 then get_flags T S (pos + 1) else flags) in
            if is_other flags2 then
              (let pos1 = skip_others T S flags2 (pos + (if cpt = 0x20 then 1 else 0));
                   pos' = skip_newlines S (get_cpt S pos1) pos1 in
               case add_token S pos' st of Inl e \<Rightarrow> Inl e | Inr (len, st') \<Rightarrow> Inr (pos', st'))
            else
              (case llama3_whitespaces T S pos 0 0 of
                 (num_whitespaces, last_end_r_or_n) \<Rightarrow>
                   if last_end_r_or_n > 0 then
                     (case add_token S last_end_r_or_n st of
                        Inl e \<Rightarrow> Inl e
                      | Inr (len, st') \<Rightarrow> Inr (last_end_r_or_n, st'))
                   else if num_whitespaces > 1 \<and> get_cpt S (pos + num_whitespaces) \<noteq> 0 then
                     (let pos' = pos + (num_whitespaces - 1) in
                      case add_token S pos' st of
                        Inl e \<Rightarrow> Inl e
                      | Inr (len, st') \<Rightarrow> Inr (pos', st'))
                   else if num_whitespaces > 0 then
                     (let pos' = pos + num_whitespaces in
                      case add_token S pos' st of
                        Inl e \<Rightarrow> Inl e
                      | Inr (len, st') \<Rightarrow> Inr (pos', st'))
                   else
                     (case add_token S (pos + 1) st of
                        Inl e \<Rightarrow> Inl e
                      | Inr (len, st') \<Rightarrow> Inr (pos + 1, st')))))"

partial_function (option) llama3_loop ::
  "flags_table \<Rightarrow> (cpt \<rightharpoonup> cpt) \<Rightarrow> segment \<Rightarrow> nat \<Rightarrow> tokens \<Rightarrow> (error + tokens) option" where
  "llama3_loop T L S pos st =
    (if pos < offset_end S then
       (case llama3_step T L S pos st of
          Inl e \<Rightarrow> Some (Inl e)
        | Inr (pos', st') \<Rightarrow> llama3_loop T L S pos' st')
     else Some (Inr st))"

fun llama3_segments ::
  "flags_table \<Rightarrow> (cpt \<rightharpoonup> cpt) \<Rightarrow> cpt list \<Rightarrow> nat list \<Rightarrow> nat \<Rightarrow> nat list
     \<Rightarrow> (error + nat list) option" where
  "llama3_segments T L cpts [] start out = Some (Inr out)"
| "llama3_segments T L cpts (offset # offsets) start out =
    (if \<not> start + offset \<le> length cpts then Some (Inl AssertionFailed)
     else
       (case llama3_loop T L \<lparr>cpts_of = cpts, offset_ini = start, offset_end = start + offset\<rparr>
               start \<lparr>bpe_offsets = out, prev_end = start\<rparr> of
          None \<Rightarrow> None
        | Some (Inl e) \<Rightarrow> Some (Inl e)
        | Some (Inr st) \<Rightarrow> llama3_segments T L cpts offsets (start + offset) (bpe_offsets st)))"

definition unicode_regex_split_custom_llama3 ::
  "flags_table \<Rightarrow> (cpt \<rightharpoonup> cpt) \<Rightarrow> byte list \<Rightarrow> nat list \<Rightarrow> (error + nat list) option" where
  "unicode_regex_split_custom_llama3 T L text offsets =
    (case unicode_cpts_from_utf8 text of
       Inl e \<Rightarrow> Some (Inl e)
     | Inr cpts \<Rightarrow> llama3_segments T L cpts offsets 0 [])"

subsection \<open>Regex fallback\<close>

text \<open>
  \<^verbatim>\<open>std::regex\<close> and \<^verbatim>\<open>std::wregex\<close> belong to the C++ library, not to the repository. An
  engine is a parameter: \<open>rx_compile\<close> is the constructor \<^verbatim>\<open>std::basic_regex(regex_expr)\<close>
  (\<open>None\<close> when it succeeds, the exception otherwise); \<open>rx_matches\<close> gives, for a regex and
  the characters of a range, the matches that a \<^verbatim>\<open>std::regex_iterator\<close> over the range
  yields, in order, each as \<^verbatim>\<open>(match.position(), match.length())\<close>.
\<close>

record 'c regex_engine =
  rx_compile :: "'c list \<Rightarrow> error option"
  rx_matches :: "'c list \<Rightarrow> 'c list \<Rightarrow> error + (int \<times> int) list"

text \<open>The conversion of a signed 64-bit value to \<^verbatim>\<open>size_t\<close>.\<close>

definition to_size_t :: "int \<Rightarrow> nat" where
  "to_size_t i = nat (i mod 2 ^ 64)"

text \<open>\<^verbatim>\<open>while (it != end) { ... ++it; }\<close>: the final \<^verbatim>\<open>start_idx\<close> and the output list.\<close>

fun stl_matches :: "(int \<times> int) list \<Rightarrow> int \<Rightarrow> nat list \<Rightarrow> int \<times> nat list" where
  "stl_matches [] start_idx out = (start_idx, out)"
| "stl_matches ((position, len) # ms) start_idx out =
     stl_matches ms (position + len)
       ((if position > start_idx then out @ [to_size_t (position - start_idx)] else out)
          @ [to_size_t len])"

text \<open>
  \<^verbatim>\<open>for (auto offset : offsets)\<close>. The iterator runs over the characters from \<^verbatim>\<open>start\<close> to
  \<^verbatim>\<open>start + offset\<close>; the source does not check that they are inside the text, the model
  returns \<open>OutOfBounds\<close> when they are not.
\<close>

fun stl_segments ::
  "'c regex_engine \<Rightarrow> 'c list \<Rightarrow> 'c list \<Rightarrow> nat list \<Rightarrow> nat \<Rightarrow> nat list \<Rightarrow> error + nat list" where
  "stl_segments E text regex_expr [] start out = Inr out"
| "stl_segments E text regex_expr (offset # offsets) start out =
    (if start + offset > length text then Inl OutOfBounds
     else
       (case rx_matches E regex_expr (take offset (drop start text)) of
          Inl e \<Rightarrow> Inl e
        | Inr ms \<Rightarrow>
           (case stl_matches ms 0 out of
              (start_idx, out1) \<Rightarrow>
                stl_segments E text regex_expr offsets (start + offset)
                  (if start_idx < int offset
                   then out1 @ [to_size_t (int offset - start_idx)] else out1))))"

text \<open>Both overloads of \<^verbatim>\<open>unicode_regex_split_stl\<close> (on \<^verbatim>\<open>char\<close> and on \<^verbatim>\<open>wchar_t\<close>).\<close>

definition unicode_regex_split_stl ::
  "'c regex_engine \<Rightarrow> 'c list \<Rightarrow> 'c list \<Rightarrow> nat list \<Rightarrow> error + nat list" where
  "unicode_regex_split_stl E text regex_expr offsets =
    (case rx_compile E regex_expr of
       Some e \<Rightarrow> Inl e
     | None \<Rightarrow> stl_segments E text regex_expr offsets 0 [])"

subsection \<open>Dispatch to the hand-written splitters\<close>

text \<open>A string literal as bytes; \<open>join_backslash\<close> puts a backslash between the pieces.\<close>

definition bytes_of :: "string \<Rightarrow> byte list" where
  "bytes_of s = map (\<lambda>c. of_nat (of_char c)) s"

fun join_backslash :: "string list \<Rightarrow> string" where
  "join_backslash [] = []"
| "join_backslash [s] = s"
| "join_backslash (s # ss) = s @ CHR 0x5C # join_backslash ss"

definition gpt2_regex :: "byte list" where
  "gpt2_regex = bytes_of (join_backslash
     [CHR 0x27 # ''s|'t|'re|'ve|'m|'ll|'d| ?'', ''p{L}+| ?'', ''p{N}+| ?[^'', ''s'', ''p{L}'',
      ''p{N}]+|'', ''s+(?!'', ''S)''])"

definition llama3_regex :: "byte list" where
  "llama3_regex = bytes_of (join_backslash
     [''(?i:'s|'t|'re|'ve|'m|'ll|'d)|[^'', ''r'', ''n'', ''p{L}'', ''p{N}]?'', ''p{L}+|'',
      ''p{N}{1,3}| ?[^'', ''s'', ''p{L}'', ''p{N}]+['', ''r'', ''n]*|'', ''s*['', ''r'',
      ''n]+|'', ''s+(?!'', ''S)|'', ''s+''])"

definition llama3_regex_alt :: "byte list" where
  "llama3_regex_alt = bytes_of (join_backslash
     [''(?:'[sS]|'[tT]|'[rR][eE]|'[vV][eE]|'[mM]|'[lL][lL]|'[dD])|[^'', ''r'', ''n'', ''p{L}'',
      ''p{N}]?'', ''p{L}+|'', ''p{N}{1,3}| ?[^'', ''s'', ''p{L}'', ''p{N}]+['', ''r'',
      ''n]*|'', ''s*['', ''r'', ''n]+|'', ''s+(?!'', ''S)|'', ''s+''])"

definition unicode_regex_split_custom ::
  "flags_table \<Rightarrow> (cpt \<rightharpoonup> cpt) \<Rightarrow> byte list \<Rightarrow> byte list \<Rightarrow> nat list
     \<Rightarrow> (error + nat list) option" where
  "unicode_regex_split_custom T L text regex_expr offsets =
    (if regex_expr = gpt2_regex then unicode_regex_split_custom_gpt2 T text offsets
     else if regex_expr = llama3_regex \<or> regex_expr = llama3_regex_alt
       then unicode_regex_split_custom_llama3 T L text offsets
     else Some (Inr []))"

subsection \<open>Top-level driver\<close>

text \<open>
  The constant maps of \<^verbatim>\<open>unicode_regex_split\<close>, as association lists in the iteration order
  of \<^verbatim>\<open>std::map\<close>.
\<close>

definition k_ucat_enum :: "(byte list \<times> nat) list" where
  "k_ucat_enum =
     [(bytes_of (join_backslash ['''', ''p{L}'']), LETTER),
      (bytes_of (join_backslash ['''', ''p{N}'']), NUMBER),
      (bytes_of (join_backslash ['''', ''p{P}'']), PUNCTUATION)]"

definition k_ucat_cpt :: "(nat \<times> byte) list" where
  "k_ucat_cpt = [(NUMBER, 0xD1), (LETTER, 0xD2), (PUNCTUATION, 0xD3)]"

definition k_ucat_map :: "(nat \<times> byte list) list" where
  "k_ucat_map =
     [(NUMBER, [0x30, 0x2D, 0x39]),
      (LETTER, [0x41, 0x2D, 0x5A, 0x61, 0x2D, 0x7A]),
      (PUNCTUATION,
         [0x21, 0x2D, 0x23, 0x25, 0x2D, 0x2A, 0x2C, 0x2D, 0x2F, 0x3A, 0x2D, 0x3B, 0x3F, 0x2D,
          0x40, 0x5C, 0x5B, 0x2D, 0x5C, 0x5D, 0x5F, 0x5C, 0x7B, 0x5C, 0x7D])]"

text \<open>\<^verbatim>\<open>std::string::npos != s.find(p)\<close>\<close>

fun has_prefix :: "'a list \<Rightarrow> 'a list \<Rightarrow> bool" where
  "has_prefix [] s = True"
| "has_prefix (p # ps) [] = False"
| "has_prefix (p # ps) (c # cs) = (p = c \<and> has_prefix ps cs)"

fun str_contains :: "'a list \<Rightarrow> 'a list \<Rightarrow> bool" where
  "str_contains [] p = has_prefix p []"
| "str_contains (c # cs) p = (has_prefix p (c # cs) \<or> str_contains cs p)"

text \<open>The loop over \<^verbatim>\<open>k_ucat_enum\<close> that sets \<^verbatim>\<open>need_collapse\<close> and \<^verbatim>\<open>use_collapsed\<close>.\<close>

definition uses_category :: "byte list \<Rightarrow> bool" where
  "uses_category regex_expr = list_ex (\<lambda>ucat. str_contains regex_expr (fst ucat)) k_ucat_enum"

text \<open>One character of \<^verbatim>\<open>text_collapsed\<close>.\<close>

definition collapse_cpt :: "flags_table \<Rightarrow> cpt \<Rightarrow> byte" where
  "collapse_cpt T c =
    (if c < 128 then ucast c
     else (case map_of k_ucat_cpt (category_flag (unicode_cpt_flags T c)) of
             Some b \<Rightarrow> b
           | None \<Rightarrow> 0xD0))"

text \<open>The loop that builds \<^verbatim>\<open>regex_expr_collapsed\<close>.\<close>

function collapse_regex_loop :: "byte list \<Rightarrow> nat \<Rightarrow> bool \<Rightarrow> byte list \<Rightarrow> error + byte list" where
  "collapse_regex_loop regex_expr i inside out =
    (if i < length regex_expr then
       (if regex_expr ! i = 0x5B \<and> (i = 0 \<or> regex_expr ! (i - 1) \<noteq> 0x5C) then
          collapse_regex_loop regex_expr (i + 1) True (out @ [0x5B])
        else if inside \<and> regex_expr ! i = 0x5D \<and> regex_expr ! (i - 1) \<noteq> 0x5C then
          collapse_regex_loop regex_expr (i + 1) False (out @ [0x5D])
        else if regex_expr ! i = 0x5C \<and> i + 4 < length regex_expr \<and>
                regex_expr ! (i + 1) = 0x70 \<and> regex_expr ! (i + 2) = 0x7B \<and>
                regex_expr ! (i + 4) = 0x7D \<and>
                map_of k_ucat_enum (take 5 (drop i regex_expr)) \<noteq> None then
          (case map_of k_ucat_enum (take 5 (drop i regex_expr)) of
             None \<Rightarrow> Inl OutOfRange
           | Some cat \<Rightarrow>
              (case (map_of k_ucat_cpt cat, map_of k_ucat_map cat) of
                 (Some c, Some r) \<Rightarrow>
                   collapse_regex_loop regex_expr (i + 4 + 1) inside
                     (out @ (if \<not> inside then [0x5B] else []) @ [c] @ r
                          @ (if \<not> inside then [0x5D] else []))
               | _ \<Rightarrow> Inl OutOfRange))
        else collapse_regex_loop regex_expr (i + 1) inside (out @ [regex_expr ! i]))
     else Inr out)"
  by pat_completeness auto
termination
  by (relation "measure (\<lambda>(regex_expr, i, inside, out). length regex_expr - i)") auto

declare collapse_regex_loop.simps [simp del]

text \<open>
  The body of the \<^verbatim>\<open>try\<close> block for one regex. \<open>W\<close> is the \<^verbatim>\<open>std::wregex\<close> engine and
  \<open>from_bytes\<close> the conversion of \<^verbatim>\<open>unicode_wstring_from_utf8\<close>
  (\<^verbatim>\<open>std::wstring_convert\<close>, also of the C++ library).
\<close>

definition regex_fallback_body ::
  "byte regex_engine \<Rightarrow> 32 word regex_engine \<Rightarrow> (byte list \<Rightarrow> error + 32 word list)
    \<Rightarrow> byte list \<Rightarrow> byte list \<Rightarrow> byte list \<Rightarrow> nat list \<Rightarrow> error + nat list" where
  "regex_fallback_body E W from_bytes text text_collapsed regex_expr offsets =
    (if uses_category regex_expr then
       (case unicode_cpts_from_utf8 regex_expr of
          Inl e \<Rightarrow> Inl e
        | Inr cpts_regex \<Rightarrow>
           (if list_ex (\<lambda>c. c \<ge> 128) cpts_regex then Inl MixedCategoryAndLiteral
            else
              (case collapse_regex_loop regex_expr 0 False [] of
                 Inl e \<Rightarrow> Inl e
               | Inr regex_expr_collapsed \<Rightarrow>
                  unicode_regex_split_stl E text_collapsed regex_expr_collapsed offsets)))
     else
       (case from_bytes text of
          Inl e \<Rightarrow> Inl e
        | Inr wtext \<Rightarrow>
           (case from_bytes regex_expr of
              Inl e \<Rightarrow> Inl e
            | Inr wregex_expr \<Rightarrow> unicode_regex_split_stl W wtext wregex_expr offsets)))"

text \<open>\<^verbatim>\<open>catch (std::regex_error & e) { ... throw std::runtime_error("Failed to process regex"); }\<close>\<close>

definition regex_fallback ::
  "byte regex_engine \<Rightarrow> 32 word regex_engine \<Rightarrow> (byte list \<Rightarrow> error + 32 word list)
    \<Rightarrow> byte list \<Rightarrow> byte list \<Rightarrow> byte list \<Rightarrow> nat list \<Rightarrow> error + nat list" where
  "regex_fallback E W from_bytes text text_collapsed regex_expr offsets =
    (case regex_fallback_body E W from_bytes text text_collapsed regex_expr offsets of
       Inl RegexError \<Rightarrow> Inl RegexFailure
     | r \<Rightarrow> r)"

text \<open>\<^verbatim>\<open>for (auto & regex_expr : regex_exprs)\<close>, with \<^verbatim>\<open>bpe_offsets\<close> carried along.\<close>

fun regex_loop ::
  "flags_table \<Rightarrow> (cpt \<rightharpoonup> cpt) \<Rightarrow> byte regex_engine \<Rightarrow> 32 word regex_engine
    \<Rightarrow> (byte list \<Rightarrow> error + 32 word list) \<Rightarrow> byte list \<Rightarrow> byte list
    \<Rightarrow> byte list list \<Rightarrow> nat list \<Rightarrow> (error + nat list) option" where
  "regex_loop T L E W from_bytes text text_collapsed [] offsets = Some (Inr offsets)"
| "regex_loop T L E W from_bytes text text_collapsed (regex_expr # regex_exprs) offsets =
    (case unicode_regex_split_custom T L text regex_expr offsets of
       None \<Rightarrow> None
     | Some (Inl e) \<Rightarrow> Some (Inl e)
     | Some (Inr tmp) \<Rightarrow>
        (if tmp \<noteq> [] then regex_loop T L E W from_bytes text text_collapsed regex_exprs tmp
         else
           (case regex_fallback E W from_bytes text text_collapsed regex_expr offsets of
              Inl e \<Rightarrow> Some (Inl e)
            | Inr offs \<Rightarrow> regex_loop T L E W from_bytes text text_collapsed regex_exprs offs)))"

text \<open>\<^verbatim>\<open>unicode_cpts_to_utf8\<close>, and the loop that builds \<^verbatim>\<open>bpe_words\<close>.\<close>

fun unicode_cpts_to_utf8 :: "cpt list \<Rightarrow> error + byte list" where
  "unicode_cpts_to_utf8 [] = Inr []"
| "unicode_cpts_to_utf8 (cp # cps) =
    (case unicode_cpt_to_utf8 cp of
       Inl e \<Rightarrow> Inl e
     | Inr s \<Rightarrow> (case unicode_cpts_to_utf8 cps of Inl e \<Rightarrow> Inl e | Inr r \<Rightarrow> Inr (s @ r)))"

fun bpe_words_loop :: "cpt list \<Rightarrow> nat list \<Rightarrow> nat \<Rightarrow> error + byte list list" where
  "bpe_words_loop cpts [] start = Inr []"
| "bpe_words_loop cpts (offset # offsets) start =
    (if start + offset > length cpts then Inl OutOfBounds
     else
       (case unicode_cpts_to_utf8 (take offset (drop start cpts)) of
          Inl e \<Rightarrow> Inl e
        | Inr w \<Rightarrow>
           (case bpe_words_loop cpts offsets (start + offset) of
              Inl e \<Rightarrow> Inl e
            | Inr ws \<Rightarrow> Inr (w # ws))))"

text \<open>\<^verbatim>\<open>unicode_byte_encoding_process\<close>\<close>

fun encode_bytes :: "byte list \<Rightarrow> error + byte list" where
  "encode_bytes [] = Inr []"
| "encode_bytes (c # cs) =
    (case unicode_byte_to_utf8 c of
       Inl e \<Rightarrow> Inl e
     | Inr s \<Rightarrow> (case encode_bytes cs of Inl e \<Rightarrow> Inl e | Inr r \<Rightarrow> Inr (s @ r)))"

fun unicode_byte_encoding_process :: "byte list list \<Rightarrow> error + byte list list" where
  "unicode_byte_encoding_process [] = Inr []"
| "unicode_byte_encoding_process (word # bpe_words) =
    (case unicode_cpts_from_utf8 word of
       Inl e \<Rightarrow> Inl e
     | Inr utf_word \<Rightarrow>
        (case unicode_cpts_to_utf8 utf_word of
           Inl e \<Rightarrow> Inl e
         | Inr text_utf \<Rightarrow>
            (case encode_bytes text_utf of
               Inl e \<Rightarrow> Inl e
             | Inr encoded_token \<Rightarrow>
                (case unicode_byte_encoding_process bpe_words of
                   Inl e \<Rightarrow> Inl e
                 | Inr ws \<Rightarrow> Inr (encoded_token # ws)))))"

text \<open>\<^verbatim>\<open>unicode_regex_split\<close>\<close>

definition unicode_regex_split ::
  "flags_table \<Rightarrow> (cpt \<rightharpoonup> cpt) \<Rightarrow> byte regex_engine \<Rightarrow> 32 word regex_engine
    \<Rightarrow> (byte list \<Rightarrow> error + 32 word list) \<Rightarrow> byte list \<Rightarrow> byte list list
    \<Rightarrow> (error + byte list list) option" where
  "unicode_regex_split T L E W from_bytes text regex_exprs =
    (let need_collapse = list_ex uses_category regex_exprs in
     case unicode_cpts_from_utf8 text of
       Inl e \<Rightarrow> Some (Inl e)
     | Inr cpts \<Rightarrow>
        (let text_collapsed = (if need_collapse then map (collapse_cpt T) cpts else []) in
         case regex_loop T L E W from_bytes text text_collapsed regex_exprs [length cpts] of
           None \<Rightarrow> None
         | Some (Inl e) \<Rightarrow> Some (Inl e)
         | Some (Inr offsets) \<Rightarrow>
            (case bpe_words_loop cpts offsets 0 of
               Inl e \<Rightarrow> Some (Inl e)
             | Inr bpe_words \<Rightarrow> Some (unicode_byte_encoding_process bpe_words))))"

subsection \<open>Sample tables and engines for closed examples\<close>

text \<open>
  A table for the ASCII range with the flags that the splitters read, as the Unicode general
  categories give them: digits are numbers, letters are letters, the space is a separator and
  whitespace, the controls from TAB to CR are whitespace, the apostrophe and the other ASCII
  punctuation signs are punctuation. Every other codepoint is left undefined.
\<close>

definition ascii_flags :: flags_table where
  "ascii_flags c =
    (if 0x30 \<le> c \<and> c \<le> 0x39 then no_flags\<lparr>is_number := True\<rparr>
     else if (0x41 \<le> c \<and> c \<le> 0x5A) \<or> (0x61 \<le> c \<and> c \<le> 0x7A) then no_flags\<lparr>is_letter := True\<rparr>
     else if c = 0x20 then no_flags\<lparr>is_separator := True, is_whitespace := True\<rparr>
     else if 0x09 \<le> c \<and> c \<le> 0x0D then no_flags\<lparr>is_control := True, is_whitespace := True\<rparr>
     else if c \<in> {0x21, 0x22, 0x23, 0x25, 0x26, 0x27, 0x28, 0x29, 0x2A, 0x2C, 0x2D, 0x2E, 0x2F,
                   0x3A, 0x3B, 0x3F, 0x40, 0x5B, 0x5C, 0x5D, 0x5F, 0x7B, 0x7D}
       then no_flags\<lparr>is_punctuation := True\<rparr>
     else undef)"

text \<open>The lowercase map on the ASCII capitals.\<close>

definition ascii_lowercase :: "cpt \<rightharpoonup> cpt" where
  "ascii_lowercase c = (if 0x41 \<le> c \<and> c \<le> 0x5A then Some (c + 0x20) else None)"

text \<open>An engine whose regex matches the first character of a range, whatever the regex.\<close>

definition first_char_engine :: "'c regex_engine" where
  "first_char_engine =
     \<lparr>rx_compile = (\<lambda>regex_expr. None),
      rx_matches = (\<lambda>regex_expr subject. Inr (if subject = [] then [] else [(0, 1)]))\<rparr>"

section \<open>Predicates of the statements\<close>

subsection \<open>Token states\<close>

text \<open>
  \<open>extends st st'\<close>: the state \<open>st'\<close> has the tokens of \<open>st\<close>, then tokens of positive length
  that cover the codepoints from \<open>prev_end st\<close> to \<open>prev_end st'\<close>.
\<close>

definition extends :: "tokens \<Rightarrow> tokens \<Rightarrow> bool" where
  "extends st st' \<longleftrightarrow>
     prev_end st \<le> prev_end st' \<and>
     (\<exists>ys. bpe_offsets st' = bpe_offsets st @ ys \<and> sum_list ys = prev_end st' - prev_end st
        \<and> list_all (\<lambda>y. 0 < y) ys)"

subsection \<open>The regex library\<close>

text \<open>
  What a \<^verbatim>\<open>std::regex_iterator\<close> guarantees of the matches it yields over a range of
  \<open>offset\<close> characters: each match starts at or after the end of the one before, has a
  length that is not negative, and the last one ends inside the range.
\<close>

fun matches_in_order :: "int \<Rightarrow> nat \<Rightarrow> (int \<times> int) list \<Rightarrow> bool" where
  "matches_in_order start_idx offset [] = (start_idx \<le> int offset)"
| "matches_in_order start_idx offset ((position, len) # ms) =
     (start_idx \<le> position \<and> 0 \<le> len \<and> matches_in_order (position + len) offset ms)"

definition iterator_in_order :: "'c regex_engine \<Rightarrow> bool" where
  "iterator_in_order E \<longleftrightarrow>
     (\<forall>regex_expr subject ms.
        rx_matches E regex_expr subject = Inr ms \<longrightarrow> matches_in_order 0 (length subject) ms)"

text \<open>An engine that throws on no input, for one regex.\<close>

definition engine_succeeds :: "'c regex_engine \<Rightarrow> 'c list \<Rightarrow> bool" where
  "engine_succeeds E regex_expr \<longleftrightarrow>
     rx_compile E regex_expr = None \<and> (\<forall>subject. \<exists>ms. rx_matches E regex_expr subject = Inr ms)"

subsection \<open>The NFD table\<close>

text \<open>What the loop writes at one position.\<close>

definition nfd_of :: "range_nfd list \<Rightarrow> cpt \<Rightarrow> cpt" where
  "nfd_of ranges cpt =
     (let it = ranges ! (upper_bound ranges cpt - 1) in
      if range_first it \<le> cpt \<and> cpt \<le> range_last it then nfd it else cpt)"

text \<open>
  The hypotheses on \<^verbatim>\<open>unicode_ranges_nfd\<close>, which is not among the sources: the table is sorted
  by \<^verbatim>\<open>first\<close> (what \<^verbatim>\<open>std::upper_bound\<close> requires), its first range starts at codepoint 0 (so
  that \<^verbatim>\<open>upper_bound(...) - 1\<close> is inside the table), and no decomposition target lies in a
  range that maps elsewhere.
\<close>

definition nfd_table_ok :: "range_nfd list \<Rightarrow> bool" where
  "nfd_table_ok ranges \<longleftrightarrow>
     ranges \<noteq> [] \<and> range_first (hd ranges) = 0 \<and> sorted (map range_first ranges)"

definition nfd_targets_fixed :: "range_nfd list \<Rightarrow> bool" where
  "nfd_targets_fixed ranges \<longleftrightarrow>
     (\<forall>r \<in> set ranges. \<forall>r' \<in> set ranges.
        range_first r' \<le> nfd r \<and> nfd r \<le> range_last r' \<longrightarrow> nfd r' = nfd r)"

text \<open>A table of three ranges for closed examples.\<close>

definition sample_ranges_nfd :: "range_nfd list" where
  "sample_ranges_nfd =
     [\<lparr>range_first = 0x00, range_last = 0x00, nfd = 0x00\<rparr>,
      \<lparr>range_first = 0xC0, range_last = 0xC5, nfd = 0x41\<rparr>,
      \<lparr>range_first = 0xC7, range_last = 0xC7, nfd = 0x43\<rparr>]"

subsection \<open>The byte maps\<close>

text \<open>
  \<open>seeded ch\<close>: the byte is in one of the three ranges of the seeding loops. \<open>fill_rank ch\<close>:
  the value of \<^verbatim>\<open>n\<close> when the fourth loop reaches \<open>ch\<close>, the number of bytes below \<open>ch\<close> that
  are not seeded. \<open>byte_cp ch\<close>: the codepoint whose UTF-8 string the maps pair with \<open>ch\<close>.
\<close>

definition seeded :: "int \<Rightarrow> bool" where
  "seeded ch \<longleftrightarrow> (0x21 \<le> ch \<and> ch \<le> 0x7E) \<or> (0xA1 \<le> ch \<and> ch \<le> 0xAC) \<or> (0xAE \<le> ch \<and> ch \<le> 0xFF)"

definition fill_rank :: "int \<Rightarrow> int" where
  "fill_rank ch = int (length (filter (\<lambda>c. \<not> seeded c) [0..ch - 1]))"

definition byte_cp :: "int \<Rightarrow> int" where
  "byte_cp ch = (if seeded ch then ch else 256 + fill_rank ch)"

definition utf8_of :: "int \<Rightarrow> byte list" where
  "utf8_of c = (case unicode_cpt_to_utf8 (word_of_int c) of Inl e \<Rightarrow> [] | Inr s \<Rightarrow> s)"

text \<open>
  \<open>D\<close> is the set of bytes (as values of the \<^verbatim>\<open>int\<close> loop variable) that have an entry.
\<close>

definition b2u_inv :: "int set \<Rightarrow> (byte \<rightharpoonup> byte list) \<Rightarrow> bool" where
  "b2u_inv D m \<longleftrightarrow>
     (\<forall>ch. 0 \<le> ch \<and> ch < 256 \<longrightarrow>
        m (word_of_int ch) = (if ch \<in> D then Some (utf8_of (byte_cp ch)) else None))"

definition u2b_inv :: "int set \<Rightarrow> (byte list \<rightharpoonup> byte) \<Rightarrow> bool" where
  "u2b_inv D m \<longleftrightarrow>
     (\<forall>ch \<in> D. 0 \<le> ch \<and> ch < 256) \<and>
     (\<forall>s b. m s = Some b \<longleftrightarrow> (\<exists>ch \<in> D. s = utf8_of (byte_cp ch) \<and> b = word_of_int ch))"

text \<open>The set of bytes with an entry when the fourth loop reaches \<open>ch\<close>.\<close>

definition filled :: "int \<Rightarrow> int set" where
  "filled ch = {c. 0 \<le> c \<and> c < 256 \<and> (seeded c \<or> c < ch)}"

subsection \<open>A pattern with a category and a literal that is not ASCII\<close>

text \<open>The pattern \<^verbatim>\<open>\p{L}\<close> followed by the letter e with an acute accent (\<open>0xE9\<close>, bytes C3 A9).\<close>

definition mixed_pattern :: "byte list" where
  "mixed_pattern = [0x5C, 0x70, 0x7B, 0x4C, 0x7D, 0xC3, 0xA9]"

section \<open>Properties of the UTF-8 codec\<close>

subsection \<open>Bits of the constants\<close>

lemma bit_80: "bit (0x80 :: int) n \<longleftrightarrow> n = 7"
  using bit_exp_iff [where ?'a = int, of 7 n] by simp

lemma bit_40: "bit (0x40 :: int) n \<longleftrightarrow> n = 6"
  using bit_exp_iff [where ?'a = int, of 6 n] by simp

lemma bit_20: "bit (0x20 :: int) n \<longleftrightarrow> n = 5"
  using bit_exp_iff [where ?'a = int, of 5 n] by simp

lemma bit_10: "bit (0x10 :: int) n \<longleftrightarrow> n = 4"
  using bit_exp_iff [where ?'a = int, of 4 n] by simp

lemma bit_08: "bit (0x08 :: int) n \<longleftrightarrow> n = 3"
  using bit_exp_iff [where ?'a = int, of 3 n] by simp

lemma bit_3f: "bit (0x3f :: int) n \<longleftrightarrow> n < 6"
  using bit_mask_iff [where ?'a = int, of 6 n] by (simp add: mask_eq_exp_minus_1)

lemma bit_1f: "bit (0x1f :: int) n \<longleftrightarrow> n < 5"
  using bit_mask_iff [where ?'a = int, of 5 n] by (simp add: mask_eq_exp_minus_1)

lemma bit_0f: "bit (0x0f :: int) n \<longleftrightarrow> n < 4"
  using bit_mask_iff [where ?'a = int, of 4 n] by (simp add: mask_eq_exp_minus_1)

lemma bit_07: "bit (0x07 :: int) n \<longleftrightarrow> n < 3"
  using bit_mask_iff [where ?'a = int, of 3 n] by (simp add: mask_eq_exp_minus_1)

lemma bit_c0: "bit (0xc0 :: int) n \<longleftrightarrow> n = 6 \<or> n = 7"
proof -
  have "(0xc0 :: int) = 0x80 OR 0x40" by simp
  then show ?thesis by (simp only: bit_or_iff bit_80 bit_40) auto
qed

lemma bit_e0: "bit (0xe0 :: int) n \<longleftrightarrow> n = 5 \<or> n = 6 \<or> n = 7"
proof -
  have "(0xe0 :: int) = 0xc0 OR 0x20" by simp
  then show ?thesis by (simp only: bit_or_iff bit_c0 bit_20) auto
qed

lemma bit_f0: "bit (0xf0 :: int) n \<longleftrightarrow> n = 4 \<or> n = 5 \<or> n = 6 \<or> n = 7"
proof -
  have "(0xf0 :: int) = 0xe0 OR 0x10" by simp
  then show ?thesis by (simp only: bit_or_iff bit_e0 bit_10) auto
qed

lemma bit_char_int: "bit (char_int b) n \<longleftrightarrow> n < 32 \<and> bit b (min 7 n)"
  by (auto simp: char_int_def bit_simps)

lemmas bit_ops =
  bit_char_int bit_80 bit_40 bit_20 bit_10 bit_08 bit_3f bit_1f bit_0f bit_07 bit_c0 bit_e0
  bit_f0 bit_and_iff bit_or_iff bit_ucast_iff bit_push_bit_iff bit_drop_bit_eq

lemma bit_nonzero: "bit (w :: 32 word) k \<Longrightarrow> w \<noteq> 0"
  by auto

lemma high_bits_clear: "(cp :: 32 word) < 2 ^ k \<Longrightarrow> bit cp n \<Longrightarrow> n < k"
proof -
  assume a: "cp < 2 ^ k" "bit cp n"
  have "take_bit k cp = cp" using a(1) by (simp add: less_mask_eq take_bit_eq_mask)
  then show ?thesis using a(2) by (metis bit_take_bit_iff)
qed

lemma less_pow2I:
  assumes "\<And>n. bit (c :: 32 word) n \<Longrightarrow> n < k" and "k < 32"
  shows "c < 2 ^ k"
proof -
  have "c AND mask k = c"
    by (rule bit_word_eqI) (auto simp: bit_and_iff bit_mask_iff dest: assms(1))
  moreover have "c AND mask k < 2 ^ k"
    using assms(2) by (simp add: and_mask_less')
  ultimately show ?thesis by simp
qed

subsection \<open>The bytes that the encoder writes, as the decoder reads them\<close>

lemma ascii_byte:
  assumes "(cp :: 32 word) \<le> 0x7f"
  shows "char_int (ucast cp) AND 0x80 = 0" and "char_int (ucast cp) = cp"
    and "cp AND 0x80 = 0"
proof -
  from assms have "cp < 2 ^ 7" by (simp add: word_le_nat_alt word_less_nat_alt)
  then have hi: "\<And>n. bit cp n \<Longrightarrow> n < 7" using high_bits_clear [of cp 7] by simp
  show "char_int (ucast cp) AND 0x80 = 0"
    by (rule bit_word_eqI) (auto simp: bit_ops dest: hi)
  show "char_int (ucast cp) = cp"
    by (rule bit_word_eqI) (auto simp: bit_ops min_def dest: hi)
  show "cp AND 0x80 = 0"
    by (rule bit_word_eqI) (auto simp: bit_ops dest: hi)
qed

lemma cont_byte:
  "char_int (ucast (0x80 OR ((w :: 32 word) AND 0x3f))) AND 0xc0 = 0x80"
  "char_int (ucast (0x80 OR ((w :: 32 word) AND 0x3f))) AND 0x3f = w AND 0x3f"
  by (rule bit_word_eqI, auto simp: bit_ops)+

lemma lead2_byte:
  "char_int (ucast (0xc0 OR ((w :: 32 word) AND 0x1f))) AND 0x80 \<noteq> 0"
  "char_int (ucast (0xc0 OR ((w :: 32 word) AND 0x1f))) AND 0x40 \<noteq> 0"
  "char_int (ucast (0xc0 OR ((w :: 32 word) AND 0x1f))) AND 0x20 = 0"
  "char_int (ucast (0xc0 OR ((w :: 32 word) AND 0x1f))) AND 0x1f = w AND 0x1f"
proof -
  show "char_int (ucast (0xc0 OR (w AND 0x1f))) AND 0x80 \<noteq> 0"
    by (rule bit_nonzero [of _ 7]) (simp add: bit_ops)
  show "char_int (ucast (0xc0 OR (w AND 0x1f))) AND 0x40 \<noteq> 0"
    by (rule bit_nonzero [of _ 6]) (simp add: bit_ops)
  show "char_int (ucast (0xc0 OR (w AND 0x1f))) AND 0x20 = 0"
    by (rule bit_word_eqI) (auto simp: bit_ops)
  show "char_int (ucast (0xc0 OR (w AND 0x1f))) AND 0x1f = w AND 0x1f"
    by (rule bit_word_eqI) (auto simp: bit_ops)
qed

lemma lead3_byte:
  "char_int (ucast (0xe0 OR ((w :: 32 word) AND 0x0f))) AND 0x80 \<noteq> 0"
  "char_int (ucast (0xe0 OR ((w :: 32 word) AND 0x0f))) AND 0x40 \<noteq> 0"
  "char_int (ucast (0xe0 OR ((w :: 32 word) AND 0x0f))) AND 0x20 \<noteq> 0"
  "char_int (ucast (0xe0 OR ((w :: 32 word) AND 0x0f))) AND 0x10 = 0"
  "char_int (ucast (0xe0 OR ((w :: 32 word) AND 0x0f))) AND 0x0f = w AND 0x0f"
proof -
  show "char_int (ucast (0xe0 OR (w AND 0x0f))) AND 0x80 \<noteq> 0"
    by (rule bit_nonzero [of _ 7]) (simp add: bit_ops)
  show "char_int (ucast (0xe0 OR (w AND 0x0f))) AND 0x40 \<noteq> 0"
    by (rule bit_nonzero [of _ 6]) (simp add: bit_ops)
  show "char_int (ucast (0xe0 OR (w AND 0x0f))) AND 0x20 \<noteq> 0"
    by (rule bit_nonzero [of _ 5]) (simp add: bit_ops)
  show "char_int (ucast (0xe0 OR (w AND 0x0f))) AND 0x10 = 0"
    by (rule bit_word_eqI) (auto simp: bit_ops)
  show "char_int (ucast (0xe0 OR (w AND 0x0f))) AND 0x0f = w AND 0x0f"
    by (rule bit_word_eqI) (auto simp: bit_ops)
qed

lemma lead4_byte:
  "char_int (ucast (0xf0 OR ((w :: 32 word) AND 0x07))) AND 0x80 \<noteq> 0"
  "char_int (ucast (0xf0 OR ((w :: 32 word) AND 0x07))) AND 0x40 \<noteq> 0"
  "char_int (ucast (0xf0 OR ((w :: 32 word) AND 0x07))) AND 0x20 \<noteq> 0"
  "char_int (ucast (0xf0 OR ((w :: 32 word) AND 0x07))) AND 0x10 \<noteq> 0"
  "char_int (ucast (0xf0 OR ((w :: 32 word) AND 0x07))) AND 0x08 = 0"
  "char_int (ucast (0xf0 OR ((w :: 32 word) AND 0x07))) AND 0x07 = w AND 0x07"
proof -
  show "char_int (ucast (0xf0 OR (w AND 0x07))) AND 0x80 \<noteq> 0"
    by (rule bit_nonzero [of _ 7]) (simp add: bit_ops)
  show "char_int (ucast (0xf0 OR (w AND 0x07))) AND 0x40 \<noteq> 0"
    by (rule bit_nonzero [of _ 6]) (simp add: bit_ops)
  show "char_int (ucast (0xf0 OR (w AND 0x07))) AND 0x20 \<noteq> 0"
    by (rule bit_nonzero [of _ 5]) (simp add: bit_ops)
  show "char_int (ucast (0xf0 OR (w AND 0x07))) AND 0x10 \<noteq> 0"
    by (rule bit_nonzero [of _ 4]) (simp add: bit_ops)
  show "char_int (ucast (0xf0 OR (w AND 0x07))) AND 0x08 = 0"
    by (rule bit_word_eqI) (auto simp: bit_ops)
  show "char_int (ucast (0xf0 OR (w AND 0x07))) AND 0x07 = w AND 0x07"
    by (rule bit_word_eqI) (auto simp: bit_ops)
qed

lemma join2:
  assumes "(cp :: 32 word) \<le> 0x7ff"
  shows "push_bit 6 (drop_bit 6 cp AND 0x1f) OR (cp AND 0x3f) = cp"
proof -
  from assms have "cp < 2 ^ 11" by (simp add: word_le_nat_alt word_less_nat_alt)
  then have hi: "\<And>n. bit cp n \<Longrightarrow> n < 11" using high_bits_clear [of cp 11] by simp
  show ?thesis
    apply (rule bit_word_eqI)
    apply (simp only: bit_ops bit_numeral_word_iff)
    apply (auto dest: hi)
    done
qed

lemma join3:
  assumes "(cp :: 32 word) \<le> 0xffff"
  shows "push_bit 12 (drop_bit 12 cp AND 0x0f) OR push_bit 6 (drop_bit 6 cp AND 0x3f)
           OR (cp AND 0x3f) = cp"
proof -
  from assms have "cp < 2 ^ 16" by (simp add: word_le_nat_alt word_less_nat_alt)
  then have hi: "\<And>n. bit cp n \<Longrightarrow> n < 16" using high_bits_clear [of cp 16] by simp
  show ?thesis
    apply (rule bit_word_eqI)
    apply (simp only: bit_ops bit_numeral_word_iff)
    subgoal for n
      apply (cases "n < 6"; cases "n < 12")
         apply (auto dest: hi)
      done
    done
qed

lemma join4:
  assumes "(cp :: 32 word) \<le> 0x10ffff"
  shows "push_bit 18 (drop_bit 18 cp AND 0x07) OR push_bit 12 (drop_bit 12 cp AND 0x3f)
           OR push_bit 6 (drop_bit 6 cp AND 0x3f) OR (cp AND 0x3f) = cp"
proof -
  from assms have "cp < 2 ^ 21" by (simp add: word_le_nat_alt word_less_nat_alt)
  then have hi: "\<And>n. bit cp n \<Longrightarrow> n < 21" using high_bits_clear [of cp 21] by simp
  show ?thesis
    apply (rule bit_word_eqI)
    apply (simp only: bit_ops bit_numeral_word_iff)
    subgoal for n
      apply (cases "n < 6"; cases "n < 12"; cases "n < 18")
             apply (auto dest: hi)
      done
    done
qed

subsection \<open>Encoding, then decoding\<close>

text \<open>The number of bytes of the encoding, by range.\<close>

lemma decode_encode:
  assumes "cp \<le> 0x10ffff"
  shows "\<exists>utf8. unicode_cpt_to_utf8 cp = Inr utf8 \<and> utf8 \<noteq> []
           \<and> unicode_cpt_from_utf8 utf8 0 = Inr (cp, length utf8)"
proof -
  consider (one) "cp \<le> 0x7f" | (two) "0x80 \<le> cp" "cp \<le> 0x7ff"
    | (three) "0x800 \<le> cp" "cp \<le> 0xffff" | (four) "0x10000 \<le> cp" "cp \<le> 0x10ffff"
    using assms by (auto simp: word_le_nat_alt) arith
  then show ?thesis
  proof cases
    case one
    then show ?thesis
      by (simp add: unicode_cpt_to_utf8_def unicode_cpt_from_utf8_def ascii_byte)
  next
    case two
    then have "\<not> cp \<le> 0x7f" by (simp add: word_le_nat_alt)
    with two show ?thesis
      by (simp add: unicode_cpt_to_utf8_def unicode_cpt_from_utf8_def lead2_byte cont_byte join2
            del: push_bit_and)
  next
    case three
    then have "\<not> cp \<le> 0x7f" "\<not> cp \<le> 0x7ff" by (simp_all add: word_le_nat_alt)
    with three show ?thesis
      by (simp add: unicode_cpt_to_utf8_def unicode_cpt_from_utf8_def lead3_byte cont_byte join3
            del: push_bit_and)
  next
    case four
    then have "\<not> cp \<le> 0x7f" "\<not> cp \<le> 0x7ff" "\<not> cp \<le> 0xffff"
      by (simp_all add: word_le_nat_alt)
    with four show ?thesis
      by (simp add: unicode_cpt_to_utf8_def unicode_cpt_from_utf8_def lead4_byte cont_byte join4
            del: push_bit_and)
  qed
qed

lemma cpts_of_encoding:
  assumes "cp \<le> 0x10ffff"
  shows "\<exists>utf8. unicode_cpt_to_utf8 cp = Inr utf8 \<and> unicode_cpts_from_utf8 utf8 = Inr [cp]"
proof -
  from decode_encode [OF assms] obtain utf8 where
    e: "unicode_cpt_to_utf8 cp = Inr utf8" and n: "utf8 \<noteq> []"
    and d: "unicode_cpt_from_utf8 utf8 0 = Inr (cp, length utf8)"
    by blast
  have "cpts_loop utf8 0 [] = cpts_loop utf8 (length utf8) [cp]"
    using n d by (subst cpts_loop.simps) simp
  also have "\<dots> = Inr [cp]"
    by (subst cpts_loop.simps) simp
  finally show ?thesis using e by (simp add: unicode_cpts_from_utf8_def)
qed

subsection \<open>What the decoder can return\<close>

lemma ascii_lead_bits:
  assumes "char_int b AND 0x80 = 0" and "bit (char_int b) n"
  shows "n < 7"
proof (rule ccontr)
  assume "\<not> n < 7"
  then have "min 7 n = 7" by simp
  with assms(2) have "bit b 7" by (simp add: bit_char_int)
  then have "bit (char_int b AND 0x80) 7" by (simp add: bit_ops)
  with assms(1) show False by simp
qed

lemma decode_below_2_21:
  assumes "unicode_cpt_from_utf8 utf8 offset = Inr (c, offset')"
  shows "c < 0x200000"
proof -
  have "\<And>n. bit c n \<Longrightarrow> n < 21"
    using assms
    by (auto simp: unicode_cpt_from_utf8_def bit_ops split: if_splits
        dest: ascii_lead_bits simp del: push_bit_and)
  then have "c < 2 ^ 21" using less_pow2I [of c 21] by simp
  then show ?thesis by simp
qed

lemma cpts_loop_all:
  assumes "cpts_loop utf8 offset acc = Inr cpts" and "\<forall>c \<in> set acc. c < 0x200000"
  shows "\<forall>c \<in> set cpts. c < 0x200000"
  using assms
proof (induction utf8 offset acc rule: cpts_loop.induct)
  case (1 utf8 offset result)
  show ?case
  proof (cases "offset < length utf8")
    case False
    with "1.prems" show ?thesis by (subst (asm) cpts_loop.simps) simp
  next
    case True
    with "1.prems"(1) obtain c offset' where
      d: "unicode_cpt_from_utf8 utf8 offset = Inr (c, offset')"
      and r: "cpts_loop utf8 offset' (result @ [c]) = Inr cpts"
      by (subst (asm) cpts_loop.simps) (auto split: sum.splits)
    have "\<forall>x \<in> set (result @ [c]). x < 0x200000"
      using "1.prems"(2) decode_below_2_21 [OF d] by simp
    with "1.IH" [OF True d refl r] show ?thesis by blast
  qed
qed

section \<open>Claims about the codec\<close>

text \<open>
  C2. For every codepoint \<open>cp\<close> up to \<open>0x10FFFF\<close>, \<^verbatim>\<open>unicode_cpt_to_utf8\<close> returns a byte
  string, and \<^verbatim>\<open>unicode_cpts_from_utf8\<close> of that string is the one-element sequence \<open>[cp]\<close>.
\<close>

theorem utf8_round_trip:
  "cp \<le> 0x10FFFF \<Longrightarrow>
     \<exists>utf8. unicode_cpt_to_utf8 cp = Inr utf8 \<and> unicode_cpts_from_utf8 utf8 = Inr [cp]"
  by (rule cpts_of_encoding)

theorem utf8_round_trip_witness:
  "(0x20AC :: cpt) \<le> 0x10FFFF \<and> unicode_cpt_to_utf8 0x20AC = Inr [0xE2, 0x82, 0xAC]
     \<and> unicode_cpts_from_utf8 [0xE2, 0x82, 0xAC] = Inr [0x20AC]"
  using utf8_round_trip [of "0x20AC"] by (simp add: unicode_cpt_to_utf8_def)

text \<open>
  C4, as the code has it. The decoder checks the shape of a sequence and not the range of
  its value: a four-byte sequence carries 21 bits, so every codepoint of a byte string that
  \<^verbatim>\<open>unicode_cpts_from_utf8\<close> accepts is below \<open>0x200000\<close>. The bound \<open>0x110000\<close> of the claim
  fails on the bytes \<open>F4 90 80 80\<close>, which decode to \<open>0x110000\<close>.
\<close>

theorem decoded_codepoints_below_2_21:
  "unicode_cpts_from_utf8 utf8 = Inr cpts \<Longrightarrow> c \<in> set cpts \<Longrightarrow> c < 0x200000"
  using cpts_loop_all [of utf8 0 "[]" cpts] by (simp add: unicode_cpts_from_utf8_def)

theorem decoded_codepoints_witness:
  "unicode_cpts_from_utf8 [0xF7, 0xBF, 0xBF, 0xBF] = Inr [0x1FFFFF]
     \<and> (0x1FFFFF :: cpt) \<in> set [0x1FFFFF] \<and> (0x1FFFFF :: cpt) < 0x200000"
proof -
  have d: "unicode_cpts_from_utf8 [0xF7, 0xBF, 0xBF, 0xBF] = Inr [0x1FFFFF]"
    by (simp add: unicode_cpts_from_utf8_def cpts_loop.simps unicode_cpt_from_utf8_def
        char_int_def)
  have m: "(0x1FFFFF :: cpt) \<in> set [0x1FFFFF]" by simp
  from decoded_codepoints_below_2_21 [OF d m] d m show ?thesis by simp
qed

theorem decoded_codepoint_out_of_range:
  "unicode_cpts_from_utf8 [0xF4, 0x90, 0x80, 0x80] = Inr [0x110000]
     \<and> \<not> (0x110000 :: cpt) < 0x110000"
  by (simp add: unicode_cpts_from_utf8_def cpts_loop.simps unicode_cpt_from_utf8_def
      char_int_def)

text \<open>
  C5, as the code has it. The decoder has no test for surrogates: the three bytes that
  \<^verbatim>\<open>unicode_cpt_to_utf8\<close> writes for a surrogate \<open>cp\<close> in \<open>0xD800..0xDFFF\<close> decode, without
  an error, to \<open>[cp]\<close>.
\<close>

theorem surrogate_decodes:
  "0xD800 \<le> cp \<Longrightarrow> cp \<le> 0xDFFF \<Longrightarrow>
     \<exists>utf8. unicode_cpt_to_utf8 cp = Inr utf8 \<and> length utf8 = 3
       \<and> unicode_cpts_from_utf8 utf8 = Inr [cp]"
proof -
  assume a: "0xD800 \<le> cp" "cp \<le> 0xDFFF"
  then have "cp \<le> 0x10ffff" by (simp add: word_le_nat_alt)
  from cpts_of_encoding [OF this] obtain utf8 where
    u: "unicode_cpt_to_utf8 cp = Inr utf8" "unicode_cpts_from_utf8 utf8 = Inr [cp]" by blast
  have "\<not> cp \<le> 0x7f" "\<not> cp \<le> 0x7ff" "0x800 \<le> cp" "cp \<le> 0xffff"
    using a by (simp_all add: word_le_nat_alt)
  then have "length utf8 = 3" using u(1) by (auto simp: unicode_cpt_to_utf8_def)
  with u show ?thesis by blast
qed

theorem surrogate_decodes_witness:
  "(0xD800 :: cpt) \<le> 0xDFFF \<and> unicode_cpt_to_utf8 0xDFFF = Inr [0xED, 0xBF, 0xBF]
     \<and> unicode_cpts_from_utf8 [0xED, 0xBF, 0xBF] = Inr [0xDFFF]"
  using surrogate_decodes [of "0xDFFF"] by (simp add: unicode_cpt_to_utf8_def)

theorem surrogate_not_rejected:
  "unicode_cpt_to_utf8 0xD800 = Inr [0xED, 0xA0, 0x80]
     \<and> unicode_cpts_from_utf8 [0xED, 0xA0, 0x80] = Inr [0xD800]
     \<and> unicode_cpts_from_utf8 [0xED, 0xA0, 0x80] \<noteq> Inl InvalidUtf8"
  by (simp add: unicode_cpt_to_utf8_def unicode_cpts_from_utf8_def cpts_loop.simps
      unicode_cpt_from_utf8_def char_int_def)

section \<open>The byte encoder\<close>

subsection \<open>The codepoint of a byte\<close>

lemma fill_rank_0: "fill_rank 0 = 0"
  by (simp add: fill_rank_def)

lemma fill_rank_step:
  "0 \<le> ch \<Longrightarrow> fill_rank (ch + 1) = fill_rank ch + (if seeded ch then 0 else 1)"
  by (simp add: fill_rank_def upto_rec2)

lemma fill_rank_bounds: "0 \<le> ch \<Longrightarrow> 0 \<le> fill_rank ch \<and> fill_rank ch \<le> ch"
proof (induction ch rule: int_ge_induct)
  case base
  then show ?case by (simp add: fill_rank_0)
next
  case (step i)
  then show ?case by (simp add: fill_rank_step)
qed

lemma fill_rank_mono:
  assumes "a \<le> b" and "0 \<le> a"
  shows "fill_rank a \<le> fill_rank b"
  using assms
proof (induction b rule: int_ge_induct)
  case base
  then show ?case by simp
next
  case (step i)
  then show ?case by (simp add: fill_rank_step)
qed

lemma byte_cp_bounds: "0 \<le> ch \<Longrightarrow> ch < 256 \<Longrightarrow> 0 \<le> byte_cp ch \<and> byte_cp ch \<le> 0x10FFFF"
  using fill_rank_bounds [of ch] by (auto simp: byte_cp_def)

lemma byte_cp_inj:
  assumes "0 \<le> a" "a < 256" "0 \<le> b" "b < 256" and "byte_cp a = byte_cp b"
  shows "a = b"
proof -
  have less: False if "0 \<le> x" "x < y" "y < 256" "byte_cp x = byte_cp y" for x y
  proof -
    have r: "fill_rank (x + 1) \<le> fill_rank y" using that by (intro fill_rank_mono) auto
    consider "seeded x" "seeded y" | "seeded x" "\<not> seeded y" | "\<not> seeded x" "seeded y"
      | "\<not> seeded x" "\<not> seeded y"
      by blast
    then show False
      using that r fill_rank_bounds [of x] fill_rank_bounds [of y] fill_rank_step [of x]
      by cases (auto simp: byte_cp_def)
  qed
  show ?thesis using less [of a b] less [of b a] assms by (cases a b rule: linorder_cases) auto
qed

lemma byte_cp_small: "0 \<le> ch \<Longrightarrow> byte_cp ch < 256 \<Longrightarrow> seeded ch"
  using fill_rank_bounds [of ch] by (auto simp: byte_cp_def split: if_splits)

subsection \<open>The UTF-8 string of a codepoint\<close>

lemma cpt_of_int_le: "0 \<le> c \<Longrightarrow> c \<le> 0x10FFFF \<Longrightarrow> (word_of_int c :: cpt) \<le> 0x10FFFF"
  by (simp add: word_le_def uint_word_of_int take_bit_int_eq_self)

lemma utf8_of_ok:
  assumes "0 \<le> c" and "c \<le> 0x10FFFF"
  shows "unicode_cpt_to_utf8 (word_of_int c) = Inr (utf8_of c)"
  using cpts_of_encoding [OF cpt_of_int_le [OF assms]] by (auto simp: utf8_of_def)

lemma utf8_of_inj:
  assumes "0 \<le> c" "c \<le> 0x10FFFF" "0 \<le> d" "d \<le> 0x10FFFF" and "utf8_of c = utf8_of d"
  shows "c = d"
proof -
  from cpts_of_encoding [OF cpt_of_int_le [OF assms(1,2)]] utf8_of_ok [OF assms(1,2)]
  have "unicode_cpts_from_utf8 (utf8_of c) = Inr [word_of_int c]" by simp
  moreover from cpts_of_encoding [OF cpt_of_int_le [OF assms(3,4)]] utf8_of_ok [OF assms(3,4)]
  have "unicode_cpts_from_utf8 (utf8_of d) = Inr [word_of_int d]" by simp
  ultimately have "(word_of_int c :: cpt) = word_of_int d" using assms(5) by simp
  then have "take_bit 32 c = take_bit 32 d" by (simp add: word_of_int_eq_iff)
  then show ?thesis using assms(1-4) by (simp add: take_bit_int_eq_self)
qed

lemma byte_of_int_inj:
  assumes "0 \<le> a" "a < 256" "0 \<le> b" "b < 256" and "(word_of_int a :: byte) = word_of_int b"
  shows "a = b"
proof -
  from assms(5) have "take_bit 8 a = take_bit 8 b" by (simp add: word_of_int_eq_iff)
  then show ?thesis using assms(1-4) by (simp add: take_bit_int_eq_self)
qed

lemma utf8_of_byte_cp_inj:
  assumes "0 \<le> a" "a < 256" "0 \<le> b" "b < 256" and "utf8_of (byte_cp a) = utf8_of (byte_cp b)"
  shows "a = b"
  using utf8_of_inj [OF _ _ _ _ assms(5)] byte_cp_bounds [OF assms(1,2)]
    byte_cp_bounds [OF assms(3,4)] byte_cp_inj [OF assms(1-4)]
  by blast

subsection \<open>Invariants of the loops\<close>

lemma b2u_inv_insert:
  assumes "b2u_inv D m" and "0 \<le> ch" and "ch < 256"
  shows "b2u_inv (insert ch D) (m(word_of_int ch \<mapsto> utf8_of (byte_cp ch)))"
  unfolding b2u_inv_def
proof (intro allI impI)
  fix c :: int
  assume c: "0 \<le> c \<and> c < 256"
  show "(m(word_of_int ch \<mapsto> utf8_of (byte_cp ch))) (word_of_int c)
          = (if c \<in> insert ch D then Some (utf8_of (byte_cp c)) else None)"
  proof (cases "c = ch")
    case True
    then show ?thesis by simp
  next
    case False
    then have "(word_of_int c :: byte) \<noteq> word_of_int ch"
      using byte_of_int_inj [of c ch] c assms(2,3) by blast
    then show ?thesis using assms(1) c False by (simp add: b2u_inv_def)
  qed
qed

lemma u2b_inv_insert:
  assumes "u2b_inv D m" and "0 \<le> ch" and "ch < 256"
  shows "u2b_inv (insert ch D) (m(utf8_of (byte_cp ch) \<mapsto> word_of_int ch))"
proof -
  from assms(1) have D: "\<forall>c \<in> D. 0 \<le> c \<and> c < 256"
    and m: "\<And>s b. m s = Some b \<longleftrightarrow> (\<exists>c \<in> D. s = utf8_of (byte_cp c) \<and> b = word_of_int c)"
    by (simp_all add: u2b_inv_def)
  have same: "c = ch" if "c \<in> insert ch D" "utf8_of (byte_cp ch) = utf8_of (byte_cp c)" for c
    using utf8_of_byte_cp_inj [of ch c] that D assms(2,3) by auto
  show ?thesis
    unfolding u2b_inv_def
  proof (intro conjI allI)
    show "\<forall>c \<in> insert ch D. 0 \<le> c \<and> c < 256" using D assms(2,3) by simp
    fix s b
    show "(m(utf8_of (byte_cp ch) \<mapsto> word_of_int ch)) s = Some b
            \<longleftrightarrow> (\<exists>c \<in> insert ch D. s = utf8_of (byte_cp c) \<and> b = word_of_int c)"
    proof (cases "s = utf8_of (byte_cp ch)")
      case True
      then show ?thesis using same by auto
    next
      case False
      then show ?thesis using m by auto
    qed
  qed
qed

subsection \<open>The loops of \<^verbatim>\<open>unicode_byte_to_utf8_map\<close>\<close>

lemma seeded_cp: "seeded ch \<Longrightarrow> byte_cp ch = ch"
  by (simp add: byte_cp_def)

lemma byte_to_utf8_seed_inv:
  assumes "b2u_inv D m" and "\<forall>ch \<in> set chs. 0 \<le> ch \<and> ch < 256 \<and> seeded ch"
  shows "\<exists>m'. byte_to_utf8_seed chs m = Inr m' \<and> b2u_inv (D \<union> set chs) m'"
  using assms
proof (induction chs arbitrary: D m)
  case Nil
  then show ?case by simp
next
  case (Cons ch chs)
  then have ch: "0 \<le> ch" "ch < 256" "seeded ch" by simp_all
  have enc: "unicode_cpt_to_utf8 (word_of_int ch) = Inr (utf8_of (byte_cp ch))"
    using utf8_of_ok [of ch] ch by (simp add: seeded_cp)
  have "b2u_inv (insert ch D) (m(word_of_int ch \<mapsto> utf8_of (byte_cp ch)))"
    using Cons.prems(1) ch(1,2) by (rule b2u_inv_insert)
  moreover have "\<forall>c \<in> set chs. 0 \<le> c \<and> c < 256 \<and> seeded c" using Cons.prems(2) by simp
  ultimately obtain m' where
    "byte_to_utf8_seed chs (m(word_of_int ch \<mapsto> utf8_of (byte_cp ch))) = Inr m'"
    "b2u_inv (insert ch D \<union> set chs) m'"
    using Cons.IH by blast
  then show ?case using ch enc by simp
qed

lemma filled_step:
  assumes "0 \<le> ch" and "ch < 256"
  shows "filled (ch + 1) = insert ch (filled ch)"
    and "seeded ch \<Longrightarrow> filled (ch + 1) = filled ch"
    and "ch \<in> filled ch \<longleftrightarrow> seeded ch"
  using assms by (auto simp: filled_def)

lemma fill_cp:
  assumes "0 \<le> ch" and "ch < 256" and "\<not> seeded ch"
  shows "unicode_cpt_to_utf8 (word_of_int (256 + fill_rank ch)) = Inr (utf8_of (byte_cp ch))"
  using utf8_of_ok [of "256 + fill_rank ch"] fill_rank_bounds [OF assms(1)] assms(2,3)
  by (simp add: byte_cp_def)

lemma byte_to_utf8_fill_inv:
  assumes "0 \<le> ch" and "ch \<le> 256" and "b2u_inv (filled ch) m"
  shows "\<exists>m' n'. byte_to_utf8_fill [ch..255] m (fill_rank ch) = Inr (m', n')
           \<and> b2u_inv (filled 256) m'"
  using assms
proof (induction "nat (256 - ch)" arbitrary: ch m)
  case 0
  then have "ch = 256" by simp
  with "0.prems" show ?case by simp
next
  case (Suc k)
  then have ch: "0 \<le> ch" "ch < 256" by simp_all
  have l: "[ch..255] = ch # [ch + 1..255]" using ch by (simp add: upto_rec1)
  have k: "k = nat (256 - (ch + 1))" using Suc.hyps(2) by simp
  have look: "m (word_of_int ch) = (if seeded ch then Some (utf8_of (byte_cp ch)) else None)"
    using Suc.prems(3) ch filled_step(3) [OF ch] by (simp add: b2u_inv_def)
  show ?case
  proof (cases "seeded ch")
    case True
    have "b2u_inv (filled (ch + 1)) m"
      using Suc.prems(3) filled_step(2) [OF ch True] by simp
    from Suc.hyps(1) [OF k _ _ this] ch obtain m' n' where
      "byte_to_utf8_fill [ch + 1..255] m (fill_rank (ch + 1)) = Inr (m', n')"
      "b2u_inv (filled 256) m'"
      by auto
    then show ?thesis using True look ch by (simp add: l fill_rank_step)
  next
    case False
    have "b2u_inv (filled (ch + 1)) (m(word_of_int ch \<mapsto> utf8_of (byte_cp ch)))"
      using b2u_inv_insert [OF Suc.prems(3) ch] filled_step(1) [OF ch] by simp
    from Suc.hyps(1) [OF k _ _ this] ch obtain m' n' where
      "byte_to_utf8_fill [ch + 1..255] (m(word_of_int ch \<mapsto> utf8_of (byte_cp ch)))
         (fill_rank (ch + 1)) = Inr (m', n')"
      "b2u_inv (filled 256) m'"
      by auto
    then show ?thesis using False look ch fill_cp [OF ch False] by (simp add: l fill_rank_step)
  qed
qed

lemma seeded_ranges:
  "{} \<union> set [0x21..0x7E] \<union> set [0xA1..0xAC] \<union> set [0xAE..0xFF] = filled 0"
  by (simp only: set_upto) (auto simp: filled_def seeded_def)

lemma seeded_in_range:
  "\<forall>ch \<in> set [0x21..0x7E]. 0 \<le> ch \<and> ch < 256 \<and> seeded ch"
  "\<forall>ch \<in> set [0xA1..0xAC]. 0 \<le> ch \<and> ch < 256 \<and> seeded ch"
  "\<forall>ch \<in> set [0xAE..0xFF]. 0 \<le> ch \<and> ch < 256 \<and> seeded ch"
  by (simp_all only: set_upto) (auto simp: seeded_def)

lemma byte_to_utf8_map_inv:
  "\<exists>m. unicode_byte_to_utf8_map = Inr m \<and> b2u_inv (filled 256) m"
proof -
  have "b2u_inv {} Map.empty" by (simp add: b2u_inv_def)
  from byte_to_utf8_seed_inv [OF this seeded_in_range(1)] obtain m1 where
    m1: "byte_to_utf8_seed [0x21..0x7E] Map.empty = Inr m1" "b2u_inv ({} \<union> set [0x21..0x7E]) m1"
    by blast
  from byte_to_utf8_seed_inv [OF m1(2) seeded_in_range(2)] obtain m2 where
    m2: "byte_to_utf8_seed [0xA1..0xAC] m1 = Inr m2"
      "b2u_inv ({} \<union> set [0x21..0x7E] \<union> set [0xA1..0xAC]) m2"
    by blast
  from byte_to_utf8_seed_inv [OF m2(2) seeded_in_range(3)] obtain m3 where
    m3: "byte_to_utf8_seed [0xAE..0xFF] m2 = Inr m3" "b2u_inv (filled 0) m3"
    unfolding seeded_ranges by blast
  from byte_to_utf8_fill_inv [OF _ _ m3(2)] obtain m4 n where
    m4: "byte_to_utf8_fill [0..255] m3 0 = Inr (m4, n)" "b2u_inv (filled 256) m4"
    by (auto simp: fill_rank_0)
  show ?thesis
    unfolding unicode_byte_to_utf8_map_def
    by (simp only: m1(1) m2(1) m3(1) m4(1) sum.case prod.case) (simp add: m4(2))
qed

subsection \<open>The loops of \<^verbatim>\<open>unicode_utf8_to_byte_map\<close>\<close>

lemma utf8_to_byte_seed_inv:
  assumes "u2b_inv D m" and "\<forall>ch \<in> set chs. 0 \<le> ch \<and> ch < 256 \<and> seeded ch"
  shows "\<exists>m'. utf8_to_byte_seed chs m = Inr m' \<and> u2b_inv (D \<union> set chs) m'"
  using assms
proof (induction chs arbitrary: D m)
  case Nil
  then show ?case by simp
next
  case (Cons ch chs)
  then have ch: "0 \<le> ch" "ch < 256" "seeded ch" by simp_all
  have enc: "unicode_cpt_to_utf8 (word_of_int ch) = Inr (utf8_of (byte_cp ch))"
    using utf8_of_ok [of ch] ch by (simp add: seeded_cp)
  have "u2b_inv (insert ch D) (m(utf8_of (byte_cp ch) \<mapsto> word_of_int ch))"
    using Cons.prems(1) ch(1,2) by (rule u2b_inv_insert)
  moreover have "\<forall>c \<in> set chs. 0 \<le> c \<and> c < 256 \<and> seeded c" using Cons.prems(2) by simp
  ultimately obtain m' where
    "utf8_to_byte_seed chs (m(utf8_of (byte_cp ch) \<mapsto> word_of_int ch)) = Inr m'"
    "u2b_inv (insert ch D \<union> set chs) m'"
    using Cons.IH by blast
  then show ?case using ch enc by simp
qed

text \<open>The test of the fourth loop: the string of \<open>ch\<close> is a key exactly when \<open>ch\<close> is seeded.\<close>

lemma utf8_to_byte_lookup:
  assumes "u2b_inv (filled ch) m" and "0 \<le> ch" and "ch < 256"
  shows "m (utf8_of ch) = None \<longleftrightarrow> \<not> seeded ch"
proof
  assume none: "m (utf8_of ch) = None"
  show "\<not> seeded ch"
  proof
    assume s: "seeded ch"
    then have "ch \<in> filled ch" using assms(2,3) by (simp add: filled_def)
    then have "m (utf8_of (byte_cp ch)) = Some (word_of_int ch)"
      using assms(1) by (auto simp: u2b_inv_def)
    with none s show False by (simp add: seeded_cp)
  qed
next
  assume ns: "\<not> seeded ch"
  show "m (utf8_of ch) = None"
  proof (rule ccontr)
    assume "m (utf8_of ch) \<noteq> None"
    then obtain b where "m (utf8_of ch) = Some b" by auto
    with assms(1) obtain c where
      c: "c \<in> filled ch" "utf8_of ch = utf8_of (byte_cp c)" "0 \<le> c" "c < 256"
      by (auto simp: u2b_inv_def)
    from utf8_of_inj [OF _ _ _ _ c(2)] byte_cp_bounds [OF c(3,4)] assms(2,3)
    have e: "byte_cp c = ch" by simp
    with byte_cp_small [OF c(3)] assms(3) have "seeded c" by simp
    with e ns show False by (simp add: seeded_cp)
  qed
qed

lemma utf8_to_byte_fill_inv:
  assumes "0 \<le> ch" and "ch \<le> 256" and "u2b_inv (filled ch) m"
  shows "\<exists>m' n'. utf8_to_byte_fill [ch..255] m (fill_rank ch) = Inr (m', n')
           \<and> u2b_inv (filled 256) m'"
  using assms
proof (induction "nat (256 - ch)" arbitrary: ch m)
  case 0
  then have "ch = 256" by simp
  with "0.prems" show ?case by simp
next
  case (Suc k)
  then have ch: "0 \<le> ch" "ch < 256" by simp_all
  have l: "[ch..255] = ch # [ch + 1..255]" using ch by (simp add: upto_rec1)
  have k: "k = nat (256 - (ch + 1))" using Suc.hyps(2) by simp
  have key: "unicode_cpt_to_utf8 (word_of_int ch) = Inr (utf8_of ch)"
    using utf8_of_ok [of ch] ch by simp
  note look = utf8_to_byte_lookup [OF Suc.prems(3) ch]
  show ?case
  proof (cases "seeded ch")
    case True
    have "u2b_inv (filled (ch + 1)) m"
      using Suc.prems(3) filled_step(2) [OF ch True] by simp
    from Suc.hyps(1) [OF k _ _ this] ch obtain m' n' where
      "utf8_to_byte_fill [ch + 1..255] m (fill_rank (ch + 1)) = Inr (m', n')"
      "u2b_inv (filled 256) m'"
      by auto
    then show ?thesis using True look key ch by (auto simp: l fill_rank_step)
  next
    case False
    have "u2b_inv (filled (ch + 1)) (m(utf8_of (byte_cp ch) \<mapsto> word_of_int ch))"
      using u2b_inv_insert [OF Suc.prems(3) ch] filled_step(1) [OF ch] by simp
    from Suc.hyps(1) [OF k _ _ this] ch obtain m' n' where
      "utf8_to_byte_fill [ch + 1..255] (m(utf8_of (byte_cp ch) \<mapsto> word_of_int ch))
         (fill_rank (ch + 1)) = Inr (m', n')"
      "u2b_inv (filled 256) m'"
      by auto
    then show ?thesis
      using False look key ch fill_cp [OF ch False] by (auto simp: l fill_rank_step)
  qed
qed

lemma utf8_to_byte_map_inv:
  "\<exists>m. unicode_utf8_to_byte_map = Inr m \<and> u2b_inv (filled 256) m"
proof -
  have "u2b_inv {} Map.empty" by (simp add: u2b_inv_def)
  from utf8_to_byte_seed_inv [OF this seeded_in_range(1)] obtain m1 where
    m1: "utf8_to_byte_seed [0x21..0x7E] Map.empty = Inr m1" "u2b_inv ({} \<union> set [0x21..0x7E]) m1"
    by blast
  from utf8_to_byte_seed_inv [OF m1(2) seeded_in_range(2)] obtain m2 where
    m2: "utf8_to_byte_seed [0xA1..0xAC] m1 = Inr m2"
      "u2b_inv ({} \<union> set [0x21..0x7E] \<union> set [0xA1..0xAC]) m2"
    by blast
  from utf8_to_byte_seed_inv [OF m2(2) seeded_in_range(3)] obtain m3 where
    m3: "utf8_to_byte_seed [0xAE..0xFF] m2 = Inr m3" "u2b_inv (filled 0) m3"
    unfolding seeded_ranges by blast
  from utf8_to_byte_fill_inv [OF _ _ m3(2)] obtain m4 n where
    m4: "utf8_to_byte_fill [0..255] m3 0 = Inr (m4, n)" "u2b_inv (filled 256) m4"
    by (auto simp: fill_rank_0)
  show ?thesis
    unfolding unicode_utf8_to_byte_map_def
    by (simp only: m1(1) m2(1) m3(1) m4(1) sum.case prod.case) (simp add: m4(2))
qed

subsection \<open>The two maps\<close>

lemma byte_as_int: "\<exists>ch. 0 \<le> ch \<and> ch < 256 \<and> (b :: byte) = word_of_int ch"
  by (rule exI [of _ "uint b"]) (use uint_bounded [of b] in simp)

lemma maps_inverse:
  assumes "b2u_inv (filled 256) b2u" and "u2b_inv (filled 256) u2b"
  shows "b2u b = Some s \<longleftrightarrow> u2b s = Some b"
proof -
  from byte_as_int [of b] obtain ch where ch: "0 \<le> ch" "ch < 256" "b = word_of_int ch" by blast
  have f: "c \<in> filled 256 \<longleftrightarrow> 0 \<le> c \<and> c < 256" for c by (auto simp: filled_def)
  have 1: "b2u b = Some (utf8_of (byte_cp ch))"
    using assms(1) ch f by (simp add: b2u_inv_def)
  have 2: "u2b s = Some b \<longleftrightarrow> (\<exists>c. 0 \<le> c \<and> c < 256 \<and> s = utf8_of (byte_cp c) \<and> b = word_of_int c)"
    using assms(2) f by (auto simp: u2b_inv_def)
  show ?thesis
  proof
    assume "b2u b = Some s"
    with 1 have "s = utf8_of (byte_cp ch)" by simp
    with 2 ch show "u2b s = Some b" by blast
  next
    assume "u2b s = Some b"
    with 2 obtain c where c: "0 \<le> c" "c < 256" "s = utf8_of (byte_cp c)" "b = word_of_int c"
      by blast
    with ch byte_of_int_inj [of c ch] have "c = ch" by simp
    with 1 c show "b2u b = Some s" by simp
  qed
qed

lemma b2u_total:
  assumes "b2u_inv (filled 256) b2u"
  shows "\<exists>s. b2u b = Some s"
proof -
  from byte_as_int [of b] obtain ch where ch: "0 \<le> ch" "ch < 256" "b = word_of_int ch" by blast
  then have "ch \<in> filled 256" by (simp add: filled_def)
  with assms ch show ?thesis by (simp add: b2u_inv_def)
qed

text \<open>
  C3. Both maps are built without an error. Every byte is a key of the byte-to-utf8 map and
  a value of the utf8-to-byte map; the byte-to-utf8 map sends \<open>b\<close> to \<open>s\<close> exactly when the
  utf8-to-byte map sends \<open>s\<close> to \<open>b\<close>; and \<^verbatim>\<open>unicode_utf8_to_byte\<close> of \<^verbatim>\<open>unicode_byte_to_utf8\<close> of a
  byte is that byte.
\<close>

theorem byte_map_bijection:
  "\<exists>b2u u2b. unicode_byte_to_utf8_map = Inr b2u \<and> unicode_utf8_to_byte_map = Inr u2b
     \<and> dom b2u = UNIV \<and> ran u2b = UNIV
     \<and> (\<forall>b s. b2u b = Some s \<longleftrightarrow> u2b s = Some b)
     \<and> (\<forall>b. \<exists>s. unicode_byte_to_utf8 b = Inr s \<and> unicode_utf8_to_byte s = Inr b)"
proof -
  from byte_to_utf8_map_inv obtain b2u where
    b: "unicode_byte_to_utf8_map = Inr b2u" "b2u_inv (filled 256) b2u" by blast
  from utf8_to_byte_map_inv obtain u2b where
    u: "unicode_utf8_to_byte_map = Inr u2b" "u2b_inv (filled 256) u2b" by blast
  note inv = maps_inverse [OF b(2) u(2)]
  note total = b2u_total [OF b(2)]
  have d: "dom b2u = UNIV" using total by auto
  have r: "ran u2b = UNIV"
  proof -
    have "x \<in> ran u2b" for x
    proof -
      from total [of x] obtain s where "b2u x = Some s" by blast
      with inv have "u2b s = Some x" by simp
      then show ?thesis by (auto simp: ran_def)
    qed
    then show ?thesis by auto
  qed
  have rt: "\<exists>s. unicode_byte_to_utf8 x = Inr s \<and> unicode_utf8_to_byte s = Inr x" for x
  proof -
    from total [of x] obtain s where s: "b2u x = Some s" by blast
    with inv have "u2b s = Some x" by simp
    with s show ?thesis
      by (simp add: unicode_byte_to_utf8_def unicode_utf8_to_byte_def b(1) u(1))
  qed
  from b(1) u(1) d r inv rt show ?thesis by blast
qed

section \<open>Properties of the hand-written splitters\<close>

subsection \<open>Reads outside the segment\<close>

lemma undef_flags [simp]:
  "\<not> is_letter undef" "\<not> is_number undef" "\<not> is_whitespace undef" "\<not> is_other undef"
  "is_undefined undef"
  by (simp_all add: undef_def no_flags_def is_other_def)

lemma get_flags_outside [simp]: "offset_end S \<le> pos \<Longrightarrow> get_flags T S pos = undef"
  by (simp add: get_flags_def)

lemma get_cpt_outside [simp]: "offset_end S \<le> pos \<Longrightarrow> get_cpt S pos = 0"
  by (simp add: get_cpt_def)

lemma flags_inside:
  "is_letter (get_flags T S pos) \<Longrightarrow> pos < offset_end S"
  "is_number (get_flags T S pos) \<Longrightarrow> pos < offset_end S"
  "is_other (get_flags T S pos) \<Longrightarrow> pos < offset_end S"
  "is_whitespace (get_flags T S pos) \<Longrightarrow> pos < offset_end S"
  by (auto simp: get_flags_def split: if_splits)

subsection \<open>The inner loops stay inside the segment\<close>

lemma skip_letters_bounds:
  "pos \<le> skip_letters T S flags2 pos \<and>
   (is_letter flags2 \<longrightarrow> pos < skip_letters T S flags2 pos) \<and>
   skip_letters T S flags2 pos \<le> max (offset_end S) (pos + (if is_letter flags2 then 1 else 0))"
proof (induction T S flags2 pos rule: skip_letters.induct)
  case (1 T S flags2 pos)
  show ?case
  proof (cases "is_letter flags2")
    case False
    then show ?thesis by (simp add: skip_letters.simps [of T S flags2 pos])
  next
    case True
    have e: "skip_letters T S flags2 pos = skip_letters T S (get_flags T S (pos + 1)) (pos + 1)"
      using True by (simp add: skip_letters.simps [of T S flags2 pos])
    show ?thesis
      using "1.IH" [OF True] True flags_inside(1) [of T S "pos + 1"]
      unfolding e by (auto split: if_splits)
  qed
qed

lemma skip_numbers_bounds:
  "pos \<le> skip_numbers T S flags2 pos \<and>
   (is_number flags2 \<longrightarrow> pos < skip_numbers T S flags2 pos) \<and>
   skip_numbers T S flags2 pos \<le> max (offset_end S) (pos + (if is_number flags2 then 1 else 0))"
proof (induction T S flags2 pos rule: skip_numbers.induct)
  case (1 T S flags2 pos)
  show ?case
  proof (cases "is_number flags2")
    case False
    then show ?thesis by (simp add: skip_numbers.simps [of T S flags2 pos])
  next
    case True
    have e: "skip_numbers T S flags2 pos = skip_numbers T S (get_flags T S (pos + 1)) (pos + 1)"
      using True by (simp add: skip_numbers.simps [of T S flags2 pos])
    show ?thesis
      using "1.IH" [OF True] True flags_inside(2) [of T S "pos + 1"]
      unfolding e by (auto split: if_splits)
  qed
qed

lemma skip_others_bounds:
  "pos \<le> skip_others T S flags2 pos \<and>
   (is_other flags2 \<longrightarrow> pos < skip_others T S flags2 pos) \<and>
   skip_others T S flags2 pos \<le> max (offset_end S) (pos + (if is_other flags2 then 1 else 0))"
proof (induction T S flags2 pos rule: skip_others.induct)
  case (1 T S flags2 pos)
  show ?case
  proof (cases "is_other flags2")
    case False
    then show ?thesis by (simp add: skip_others.simps [of T S flags2 pos])
  next
    case True
    have e: "skip_others T S flags2 pos = skip_others T S (get_flags T S (pos + 1)) (pos + 1)"
      using True by (simp add: skip_others.simps [of T S flags2 pos])
    show ?thesis
      using "1.IH" [OF True] True flags_inside(3) [of T S "pos + 1"]
      unfolding e by (auto split: if_splits)
  qed
qed

lemma count_whitespaces_bounds:
  "n \<le> count_whitespaces T S pos n \<and>
   pos + count_whitespaces T S pos n \<le> max (offset_end S) (pos + n)"
proof (induction T S pos n rule: count_whitespaces.induct)
  case (1 T S pos n)
  show ?case
  proof (cases "is_whitespace (get_flags T S (pos + n))")
    case False
    then show ?thesis by (simp add: count_whitespaces.simps [of T S pos n])
  next
    case True
    have e: "count_whitespaces T S pos n = count_whitespaces T S pos (n + 1)"
      using True by (simp add: count_whitespaces.simps [of T S pos n])
    show ?thesis
      using "1.IH" [OF True] flags_inside(4) [OF True]
      unfolding e by auto
  qed
qed

subsection \<open>What \<^verbatim>\<open>_add_token\<close> appends\<close>

lemma extends_refl: "extends st st"
  by (simp add: extends_def)

lemma extends_trans: "extends a b \<Longrightarrow> extends b c \<Longrightarrow> extends a c"
  unfolding extends_def
  apply (elim conjE exE)
  subgoal for ys zs
    apply (intro conjI)
     apply simp
    apply (rule exI [of _ "ys @ zs"])
    apply simp
    done
  done

lemma add_token_extends:
  assumes "prev_end st \<le> e" and "e \<le> offset_end S"
  shows "\<exists>st'. add_token S e st = Inr (e - prev_end st, st') \<and> prev_end st' = e
           \<and> extends st st'"
  using assms by (auto simp: add_token_def extends_def Let_def)

lemma add_token_one:
  assumes "prev_end st < e" and "e \<le> offset_end S"
  shows "add_token S e st =
           Inr (e - prev_end st, \<lparr>bpe_offsets = bpe_offsets st @ [e - prev_end st], prev_end = e\<rparr>)"
  using assms by (simp add: add_token_def Let_def)

subsection \<open>One iteration of the GPT-2 loop\<close>

lemma gpt2_contraction_bounds:
  "gpt2_contraction S pos = Some k \<Longrightarrow> (k = 2 \<or> k = 3) \<and> pos + k \<le> offset_end S"
  by (auto simp: gpt2_contraction_def Let_def split: if_splits)

text \<open>
  From a state whose \<^verbatim>\<open>_prev_end\<close> is \<open>pos\<close>, an iteration emits exactly one token: it ends
  at the new \<open>pos\<close>, which is further right and still inside the segment.
\<close>

lemma gpt2_step_one:
  assumes "pos < offset_end S" and "prev_end st = pos"
  shows "\<exists>pos'. pos < pos' \<and> pos' \<le> offset_end S \<and>
           gpt2_step T S pos st =
             Inr (pos', \<lparr>bpe_offsets = bpe_offsets st @ [pos' - pos], prev_end = pos'\<rparr>)"
proof (cases "gpt2_contraction S pos")
  case (Some k)
  from gpt2_contraction_bounds [OF Some] have k: "0 < k" "pos + k \<le> offset_end S" by auto
  have "add_token S (pos + k) st =
          Inr (k, \<lparr>bpe_offsets = bpe_offsets st @ [k], prev_end = pos + k\<rparr>)"
    using add_token_one [of st "pos + k" S] k assms(2) by simp
  then have "gpt2_step T S pos st =
          Inr (pos + k, \<lparr>bpe_offsets = bpe_offsets st @ [pos + k - pos], prev_end = pos + k\<rparr>)"
    using Some by (simp add: gpt2_step_def)
  with k show ?thesis by (intro exI [of _ "pos + k"]) simp
next
  case None
  define cpt where "cpt = get_cpt S pos"
  define flags2 where
    "flags2 = (if cpt = 0x20 then get_flags T S (pos + 1) else get_flags T S pos)"
  define pos0 where "pos0 = pos + (if cpt = 0x20 then 1 else (0 :: nat))"
  define n where "n = count_whitespaces T S pos 0"
  have emit: "add_token S e st =
      Inr (e - pos, \<lparr>bpe_offsets = bpe_offsets st @ [e - pos], prev_end = e\<rparr>)"
    if "pos < e" "e \<le> offset_end S" for e
    using add_token_one [of st e S] that assms(2) by simp
  have start: "pos \<le> pos0 \<and> pos0 < offset_end S"
    if "is_letter flags2 \<or> is_number flags2 \<or> is_other flags2"
    using that assms(1) flags_inside [of T S "pos + 1"]
    by (auto simp: pos0_def flags2_def split: if_splits)
  have nb: "pos + n \<le> offset_end S"
    using count_whitespaces_bounds [of 0 T S pos] assms(1) by (simp add: n_def max_def)
  consider (letter) "is_letter flags2"
    | (number) "\<not> is_letter flags2" "is_number flags2"
    | (other) "\<not> is_letter flags2" "\<not> is_number flags2" "is_other flags2"
    | (ws1) "\<not> is_letter flags2" "\<not> is_number flags2" "\<not> is_other flags2"
         "n > 1 \<and> get_cpt S (pos + n) \<noteq> 0"
    | (ws2) "\<not> is_letter flags2" "\<not> is_number flags2" "\<not> is_other flags2"
         "\<not> (n > 1 \<and> get_cpt S (pos + n) \<noteq> 0)" "n > 0"
    | (none) "\<not> is_letter flags2" "\<not> is_number flags2" "\<not> is_other flags2"
         "\<not> (n > 1 \<and> get_cpt S (pos + n) \<noteq> 0)" "\<not> n > 0"
    by blast
  then show ?thesis
  proof cases
    case letter
    define e where "e = skip_letters T S flags2 pos0"
    have b: "pos < e" "e \<le> offset_end S"
      using skip_letters_bounds [of pos0 T S flags2] start letter by (auto simp: e_def)
    have "gpt2_step T S pos st =
        Inr (e, \<lparr>bpe_offsets = bpe_offsets st @ [e - pos], prev_end = e\<rparr>)"
      using None letter emit [OF b]
      by (simp add: gpt2_step_def Let_def cpt_def [symmetric] flags2_def [symmetric]
          pos0_def [symmetric] e_def [symmetric])
    with b show ?thesis by blast
  next
    case number
    define e where "e = skip_numbers T S flags2 pos0"
    have b: "pos < e" "e \<le> offset_end S"
      using skip_numbers_bounds [of pos0 T S flags2] start number by (auto simp: e_def)
    have "gpt2_step T S pos st =
        Inr (e, \<lparr>bpe_offsets = bpe_offsets st @ [e - pos], prev_end = e\<rparr>)"
      using None number emit [OF b]
      by (simp add: gpt2_step_def Let_def cpt_def [symmetric] flags2_def [symmetric]
          pos0_def [symmetric] e_def [symmetric])
    with b show ?thesis by blast
  next
    case other
    define e where "e = skip_others T S flags2 pos0"
    have b: "pos < e" "e \<le> offset_end S"
      using skip_others_bounds [of pos0 T S flags2] start other by (auto simp: e_def)
    have "gpt2_step T S pos st =
        Inr (e, \<lparr>bpe_offsets = bpe_offsets st @ [e - pos], prev_end = e\<rparr>)"
      using None other emit [OF b]
      by (simp add: gpt2_step_def Let_def cpt_def [symmetric] flags2_def [symmetric]
          pos0_def [symmetric] e_def [symmetric])
    with b show ?thesis by blast
  next
    case ws1
    have b: "pos < pos + (n - 1)" "pos + (n - 1) \<le> offset_end S" using ws1 nb by auto
    have "gpt2_step T S pos st =
        Inr (pos + (n - 1),
             \<lparr>bpe_offsets = bpe_offsets st @ [pos + (n - 1) - pos], prev_end = pos + (n - 1)\<rparr>)"
      using None ws1 emit [OF b]
      by (simp add: gpt2_step_def Let_def cpt_def [symmetric] flags2_def [symmetric]
          n_def [symmetric])
    with b show ?thesis by blast
  next
    case ws2
    have b: "pos < pos + n" "pos + n \<le> offset_end S" using ws2 nb by auto
    have "gpt2_step T S pos st =
        Inr (pos + n, \<lparr>bpe_offsets = bpe_offsets st @ [pos + n - pos], prev_end = pos + n\<rparr>)"
      using None ws2 emit [OF b]
      by (auto simp add: gpt2_step_def Let_def cpt_def [symmetric] flags2_def [symmetric]
          n_def [symmetric])
    with b show ?thesis by blast
  next
    case none
    have b: "pos < pos + 1" "pos + 1 \<le> offset_end S" using assms(1) by auto
    have "gpt2_step T S pos st =
        Inr (pos + 1, \<lparr>bpe_offsets = bpe_offsets st @ [pos + 1 - pos], prev_end = pos + 1\<rparr>)"
      using None none emit [OF b]
      by (simp add: gpt2_step_def Let_def cpt_def [symmetric] flags2_def [symmetric]
          n_def [symmetric])
    with b show ?thesis by blast
  qed
qed

lemma tokens_eq: "\<lparr>bpe_offsets = bpe_offsets st, prev_end = prev_end st\<rparr> = (st :: tokens)"
  by simp

lemma gpt2_step_extends:
  assumes "pos < offset_end S" and "prev_end st = pos"
  shows "\<exists>pos' st'. gpt2_step T S pos st = Inr (pos', st') \<and> pos < pos' \<and> pos' \<le> offset_end S
           \<and> prev_end st' = pos' \<and> extends st st'"
proof -
  from gpt2_step_one [OF assms] obtain pos' where
    p: "pos < pos'" "pos' \<le> offset_end S"
    and s: "gpt2_step T S pos st =
              Inr (pos', \<lparr>bpe_offsets = bpe_offsets st @ [pos' - pos], prev_end = pos'\<rparr>)"
    by blast
  have "extends st \<lparr>bpe_offsets = bpe_offsets st @ [pos' - pos], prev_end = pos'\<rparr>"
    using p assms(2) by (simp add: extends_def)
  with p s show ?thesis by simp
qed

subsection \<open>The GPT-2 loop returns, and covers the segment\<close>

lemma gpt2_loop_returns:
  assumes "pos \<le> offset_end S" and "prev_end st = pos"
  shows "\<exists>st'. gpt2_loop T S pos st = Some (Inr st') \<and> prev_end st' = offset_end S
           \<and> extends st st'"
  using assms
proof (induction "offset_end S - pos" arbitrary: pos st rule: less_induct)
  case less
  show ?case
  proof (cases "pos < offset_end S")
    case False
    with less.prems have "pos = offset_end S" by simp
    then show ?thesis
      using less.prems by (subst gpt2_loop.simps) (simp add: extends_refl)
  next
    case True
    from gpt2_step_extends [OF True less.prems(2)] obtain pos' st' where
      s: "gpt2_step T S pos st = Inr (pos', st')" and p: "pos < pos'" "pos' \<le> offset_end S"
      and e: "prev_end st' = pos'" "extends st st'"
      by blast
    have "offset_end S - pos' < offset_end S - pos" using p True by simp
    from less.hyps [OF this p(2) e(1)] obtain st'' where
      r: "gpt2_loop T S pos' st' = Some (Inr st'')" "prev_end st'' = offset_end S"
        "extends st' st''"
      by blast
    have "gpt2_loop T S pos st = gpt2_loop T S pos' st'"
      using True s by (subst gpt2_loop.simps) simp
    with r e(2) show ?thesis by (auto intro: extends_trans)
  qed
qed

lemma gpt2_segments_returns:
  assumes "start + sum_list offsets \<le> length cpts"
  shows "\<exists>ys. gpt2_segments T cpts offsets start out = Some (Inr (out @ ys))
           \<and> sum_list ys = sum_list offsets \<and> list_all (\<lambda>y. 0 < y) ys"
  using assms
proof (induction offsets arbitrary: start out)
  case Nil
  then show ?case by simp
next
  case (Cons offset offsets)
  define S where "S = \<lparr>cpts_of = cpts, offset_ini = start, offset_end = start + offset\<rparr>"
  define st where "st = \<lparr>bpe_offsets = out, prev_end = start\<rparr>"
  have "start \<le> offset_end S" "prev_end st = start" by (simp_all add: S_def st_def)
  from gpt2_loop_returns [OF this] obtain st' where
    l: "gpt2_loop T S start st = Some (Inr st')" and e: "prev_end st' = offset_end S"
      "extends st st'"
    by blast
  from e obtain ys where
    ys: "bpe_offsets st' = out @ ys" "sum_list ys = offset" "list_all (\<lambda>y. 0 < y) ys"
    by (auto simp: extends_def st_def S_def)
  have "start + offset + sum_list offsets \<le> length cpts" using Cons.prems by simp
  from Cons.IH [OF this, of "out @ ys"] obtain zs where
    zs: "gpt2_segments T cpts offsets (start + offset) (out @ ys) = Some (Inr ((out @ ys) @ zs))"
      "sum_list zs = sum_list offsets" "list_all (\<lambda>y. 0 < y) zs"
    by blast
  have "gpt2_segments T cpts (offset # offsets) start out = Some (Inr (out @ (ys @ zs)))"
    using Cons.prems l ys(1) zs(1) by (simp add: S_def [symmetric] st_def [symmetric])
  with ys zs show ?case by (intro exI [of _ "ys @ zs"]) simp
qed

lemma gpt2_returns:
  assumes "unicode_cpts_from_utf8 text = Inr cpts" and "sum_list offsets = length cpts"
  shows "\<exists>out. unicode_regex_split_custom_gpt2 T text offsets = Some (Inr out)
           \<and> sum_list out = length cpts \<and> list_all (\<lambda>y. 0 < y) out"
  using gpt2_segments_returns [of 0 offsets cpts T "[]"] assms
  by (auto simp: unicode_regex_split_custom_gpt2_def)

subsection \<open>The inner loops of the LLaMA-3 splitter\<close>

lemma llama3_letters_bounds:
  "pos \<le> llama3_letters T S pos \<and> llama3_letters T S pos \<le> max (offset_end S) pos"
proof (induction T S pos rule: llama3_letters.induct)
  case (1 T S pos)
  show ?case
  proof (cases "is_letter (get_flags T S pos)")
    case False
    then show ?thesis by (simp add: llama3_letters.simps [of T S pos])
  next
    case True
    have e: "llama3_letters T S pos = llama3_letters T S (pos + 1)"
      using True by (simp add: llama3_letters.simps [of T S pos])
    show ?thesis
      using "1.IH" [OF True] flags_inside(1) [OF True] unfolding e by auto
  qed
qed

lemma newline_inside: "get_cpt S pos = 0x0D \<or> get_cpt S pos = 0x0A \<Longrightarrow> pos < offset_end S"
  by (auto simp: get_cpt_def split: if_splits)

lemma skip_newlines_bounds:
  "pos \<le> skip_newlines S cpt2 pos \<and>
   skip_newlines S cpt2 pos
     \<le> max (offset_end S) (pos + (if cpt2 = 0x0D \<or> cpt2 = 0x0A then 1 else 0))"
proof (induction S cpt2 pos rule: skip_newlines.induct)
  case (1 S cpt2 pos)
  show ?case
  proof (cases "cpt2 = 0x0D \<or> cpt2 = 0x0A")
    case False
    then show ?thesis by (simp add: skip_newlines.simps [of S cpt2 pos])
  next
    case True
    have e: "skip_newlines S cpt2 pos = skip_newlines S (get_cpt S (pos + 1)) (pos + 1)"
      using True by (simp add: skip_newlines.simps [of S cpt2 pos])
    show ?thesis
      using "1.IH" [OF True] True newline_inside [of S "pos + 1"]
      unfolding e by (auto split: if_splits)
  qed
qed

lemma llama3_whitespaces_bounds:
  assumes "llama3_whitespaces T S pos n l = (m, l')"
  shows "n \<le> m \<and> pos + m \<le> max (offset_end S) (pos + n)
           \<and> (l' = l \<or> (pos + n < l' \<and> l' \<le> pos + m))"
  using assms
proof (induction T S pos n l rule: llama3_whitespaces.induct)
  case (1 T S pos n l)
  show ?case
  proof (cases "is_whitespace (get_flags T S (pos + n))")
    case False
    then show ?thesis
      using "1.prems" by (simp add: llama3_whitespaces.simps [of T S pos n l])
  next
    case True
    define l1 where
      "l1 = (if get_cpt S (pos + n) = 0x0D \<or> get_cpt S (pos + n) = 0x0A then pos + n + 1 else l)"
    have e: "llama3_whitespaces T S pos (n + 1) l1 = (m, l')"
      using True "1.prems"
      by (simp add: llama3_whitespaces.simps [of T S pos n l] l1_def Let_def)
    from "1.IH" [OF True refl e [unfolded l1_def]] flags_inside(4) [OF True]
    show ?thesis by (auto simp: l1_def split: if_splits)
  qed
qed

lemma llama3_numbers_extends:
  assumes "prev_end st = ini" and "ini \<le> pos" and "pos \<le> offset_end S"
  shows "\<exists>pos' st'. llama3_numbers T S pos ini st = Inr (pos', st') \<and> pos \<le> pos'
           \<and> pos' \<le> offset_end S \<and> (is_number (get_flags T S pos) \<longrightarrow> pos < pos')
           \<and> prev_end st' \<le> pos' \<and> extends st st'"
  using assms
proof (induction T S pos ini st rule: llama3_numbers.induct)
  case (1 T S pos ini st)
  show ?case
  proof (cases "is_number (get_flags T S pos)")
    case False
    then show ?thesis
      using "1.prems" by (simp add: llama3_numbers.simps [of T S pos ini st] extends_refl)
  next
    case True
    then have inside: "pos < offset_end S" by (rule flags_inside)
    show ?thesis
    proof (cases "pos + 1 - ini \<ge> 3")
      case False
      have e: "llama3_numbers T S pos ini st = llama3_numbers T S (pos + 1) ini st"
        using True False by (simp add: llama3_numbers.simps [of T S pos ini st])
      from "1.IH"(2) [OF True False] "1.prems" inside
      obtain pos' st' where
        "llama3_numbers T S (pos + 1) ini st = Inr (pos', st')" "pos + 1 \<le> pos'"
        "pos' \<le> offset_end S" "prev_end st' \<le> pos'" "extends st st'"
        by auto
      then show ?thesis unfolding e by auto
    next
      case ge: True
      from add_token_extends [of st "pos + 1" S] "1.prems" inside obtain st1 where
        a: "add_token S (pos + 1) st = Inr (pos + 1 - prev_end st, st1)"
          "prev_end st1 = pos + 1" "extends st st1"
        by auto
      have e: "llama3_numbers T S pos ini st = llama3_numbers T S (pos + 1) (pos + 1) st1"
        using True ge a(1) by (simp add: llama3_numbers.simps [of T S pos ini st])
      have "pos + 1 \<le> offset_end S" using inside by simp
      from "1.IH"(1) [OF True ge a(1) refl a(2) le_refl this]
      obtain pos' st' where
        "llama3_numbers T S (pos + 1) (pos + 1) st1 = Inr (pos', st')" "pos + 1 \<le> pos'"
        "pos' \<le> offset_end S" "prev_end st' \<le> pos'" "extends st1 st'"
        by auto
      then show ?thesis unfolding e using a(3) by (auto intro: extends_trans)
    qed
  qed
qed

subsection \<open>One iteration of the LLaMA-3 loop\<close>

lemma llama3_contraction_bounds:
  "llama3_contraction L S pos = Some k \<Longrightarrow> (k = 2 \<or> k = 3) \<and> pos + k \<le> offset_end S"
  by (auto simp: llama3_contraction_def Let_def split: if_splits)

lemma emit_at:
  assumes "prev_end st \<le> e" and "e \<le> offset_end S" and "pos < e" and "extends st0 st"
  shows "\<exists>len st'. add_token S e st = Inr (len, st') \<and> prev_end st' = e \<and> extends st0 st'"
proof -
  from add_token_extends [OF assms(1,2)] obtain st' where
    "add_token S e st = Inr (e - prev_end st, st')" "prev_end st' = e" "extends st st'"
    by blast
  with assms(4) show ?thesis by (auto intro: extends_trans)
qed

lemma llama3_step_extends:
  assumes "pos < offset_end S" and "prev_end st = pos"
  shows "\<exists>pos' st'. llama3_step T L S pos st = Inr (pos', st') \<and> pos < pos'
           \<and> pos' \<le> offset_end S \<and> prev_end st' = pos' \<and> extends st st'"
proof (cases "llama3_contraction L S pos")
  case (Some k)
  from llama3_contraction_bounds [OF Some] have k: "0 < k" "pos + k \<le> offset_end S" by auto
  from add_token_extends [of st "pos + k" S] k assms(2) obtain st' where
    a: "add_token S (pos + k) st = Inr (k, st')" "prev_end st' = pos + k" "extends st st'"
    by auto
  then have "llama3_step T L S pos st = Inr (pos + k, st')"
    using Some by (simp add: llama3_step_def)
  with k a show ?thesis by auto
next
  case None
  define cpt where "cpt = get_cpt S pos"
  define flags where "flags = get_flags T S pos"
  define flags2 where "flags2 = (if cpt = 0x20 then get_flags T S (pos + 1) else flags)"
  define pos0 where "pos0 = pos + (if cpt = 0x20 then 1 else (0 :: nat))"
  define ws where "ws = llama3_whitespaces T S pos 0 0"
  define n where "n = fst ws"
  define l where "l = snd ws"
  have wsb: "pos + n \<le> offset_end S" "l = 0 \<or> (pos < l \<and> l \<le> offset_end S)"
    using llama3_whitespaces_bounds [of T S pos 0 0 n l] assms(1)
    by (auto simp: n_def l_def ws_def max_def)
  have st: "prev_end st \<le> e" if "pos < e" for e using that assms(2) by simp
  note unfold = llama3_step_def Let_def cpt_def [symmetric] flags_def [symmetric]
  consider (letter) "\<not> (cpt = 0x0D \<or> cpt = 0x0A \<or> is_number flags) \<and>
            (is_letter flags \<or> is_letter (get_flags T S (pos + 1)))"
    | (number) "\<not> (\<not> (cpt = 0x0D \<or> cpt = 0x0A \<or> is_number flags) \<and>
            (is_letter flags \<or> is_letter (get_flags T S (pos + 1))))" "is_number flags"
    | (other) "\<not> (\<not> (cpt = 0x0D \<or> cpt = 0x0A \<or> is_number flags) \<and>
            (is_letter flags \<or> is_letter (get_flags T S (pos + 1))))" "\<not> is_number flags"
         "is_other flags2"
    | (white) "\<not> (\<not> (cpt = 0x0D \<or> cpt = 0x0A \<or> is_number flags) \<and>
            (is_letter flags \<or> is_letter (get_flags T S (pos + 1))))" "\<not> is_number flags"
         "\<not> is_other flags2"
    by blast
  then show ?thesis
  proof cases
    case letter
    define e where "e = llama3_letters T S (pos + 1)"
    have b: "pos < e" "e \<le> offset_end S"
      using llama3_letters_bounds [of "pos + 1" T S] assms(1) by (auto simp: e_def)
    from emit_at [OF st [OF b(1)] b(2) b(1) extends_refl] obtain len st' where
      a: "add_token S e st = Inr (len, st')" "prev_end st' = e" "extends st st'"
      by blast
    have "llama3_step T L S pos st = Inr (e, st')"
      using None letter a(1) unfolding e_def by (simp add: unfold)
    with a b show ?thesis by simp
  next
    case number
    from llama3_numbers_extends [of st pos pos S T] assms number(2) obtain e st1 where
      m: "llama3_numbers T S pos pos st = Inr (e, st1)" "pos < e" "e \<le> offset_end S"
        "prev_end st1 \<le> e" "extends st st1"
      by (auto simp: flags_def)
    from emit_at [OF m(4) m(3) m(2) m(5)] obtain len st' where
      a: "add_token S e st1 = Inr (len, st')" "prev_end st' = e" "extends st st'"
      by blast
    have "llama3_step T L S pos st = Inr (e, st')"
      using None number m(1) a(1) by (simp add: unfold)
    with a m show ?thesis by simp
  next
    case other
    define pos1 where "pos1 = skip_others T S flags2 pos0"
    define e where "e = skip_newlines S (get_cpt S pos1) pos1"
    have "pos \<le> pos0 \<and> pos0 < offset_end S"
      using other(3) assms(1) flags_inside(3) [of T S "pos + 1"]
      by (auto simp: pos0_def flags2_def split: if_splits)
    then have b1: "pos < pos1" "pos1 \<le> offset_end S"
      using skip_others_bounds [of pos0 T S flags2] other(3) by (auto simp: pos1_def)
    have b: "pos < e" "e \<le> offset_end S"
      using skip_newlines_bounds [of pos1 S "get_cpt S pos1"] b1 newline_inside [of S pos1]
      by (auto simp: e_def split: if_splits)
    from emit_at [OF st [OF b(1)] b(2) b(1) extends_refl] obtain len st' where
      a: "add_token S e st = Inr (len, st')" "prev_end st' = e" "extends st st'"
      by blast
    have "llama3_step T L S pos st = Inr (e, st')"
      using None other a(1) unfolding e_def pos1_def pos0_def
      by (auto simp add: unfold flags2_def [symmetric] split: if_splits)
    with a b show ?thesis by simp
  next
    case white
    define e where
      "e = (if l > 0 then l
            else if n > 1 \<and> get_cpt S (pos + n) \<noteq> 0 then pos + (n - 1)
            else if n > 0 then pos + n else pos + 1)"
    have b: "pos < e" "e \<le> offset_end S"
      using wsb assms(1) by (auto simp: e_def)
    have w: "llama3_whitespaces T S pos 0 0 = (n, l)" by (simp add: n_def l_def ws_def)
    from emit_at [OF st [OF b(1)] b(2) b(1) extends_refl] obtain len st' where
      a: "add_token S e st = Inr (len, st')" "prev_end st' = e" "extends st st'"
      by blast
    have "llama3_step T L S pos st = Inr (e, st')"
      using None white w a(1) unfolding e_def
      by (auto simp add: unfold flags2_def [symmetric] split: if_splits)
    with a b show ?thesis by simp
  qed
qed

subsection \<open>The LLaMA-3 loop returns, and covers the segment\<close>

lemma llama3_loop_returns:
  assumes "pos \<le> offset_end S" and "prev_end st = pos"
  shows "\<exists>st'. llama3_loop T L S pos st = Some (Inr st') \<and> prev_end st' = offset_end S
           \<and> extends st st'"
  using assms
proof (induction "offset_end S - pos" arbitrary: pos st rule: less_induct)
  case less
  show ?case
  proof (cases "pos < offset_end S")
    case False
    with less.prems have "pos = offset_end S" by simp
    then show ?thesis
      using less.prems by (subst llama3_loop.simps) (simp add: extends_refl)
  next
    case True
    from llama3_step_extends [OF True less.prems(2)] obtain pos' st' where
      s: "llama3_step T L S pos st = Inr (pos', st')" and p: "pos < pos'" "pos' \<le> offset_end S"
      and e: "prev_end st' = pos'" "extends st st'"
      by blast
    have "offset_end S - pos' < offset_end S - pos" using p True by simp
    from less.hyps [OF this p(2) e(1)] obtain st'' where
      r: "llama3_loop T L S pos' st' = Some (Inr st'')" "prev_end st'' = offset_end S"
        "extends st' st''"
      by blast
    have "llama3_loop T L S pos st = llama3_loop T L S pos' st'"
      using True s by (subst llama3_loop.simps) simp
    with r e(2) show ?thesis by (auto intro: extends_trans)
  qed
qed

lemma llama3_segments_returns:
  assumes "start + sum_list offsets \<le> length cpts"
  shows "\<exists>ys. llama3_segments T L cpts offsets start out = Some (Inr (out @ ys))
           \<and> sum_list ys = sum_list offsets \<and> list_all (\<lambda>y. 0 < y) ys"
  using assms
proof (induction offsets arbitrary: start out)
  case Nil
  then show ?case by simp
next
  case (Cons offset offsets)
  define S where "S = \<lparr>cpts_of = cpts, offset_ini = start, offset_end = start + offset\<rparr>"
  define st where "st = \<lparr>bpe_offsets = out, prev_end = start\<rparr>"
  have "start \<le> offset_end S" "prev_end st = start" by (simp_all add: S_def st_def)
  from llama3_loop_returns [OF this] obtain st' where
    l: "llama3_loop T L S start st = Some (Inr st')" and e: "prev_end st' = offset_end S"
      "extends st st'"
    by blast
  from e obtain ys where
    ys: "bpe_offsets st' = out @ ys" "sum_list ys = offset" "list_all (\<lambda>y. 0 < y) ys"
    by (auto simp: extends_def st_def S_def)
  have "start + offset + sum_list offsets \<le> length cpts" using Cons.prems by simp
  from Cons.IH [OF this, of "out @ ys"] obtain zs where
    zs: "llama3_segments T L cpts offsets (start + offset) (out @ ys)
           = Some (Inr ((out @ ys) @ zs))"
      "sum_list zs = sum_list offsets" "list_all (\<lambda>y. 0 < y) zs"
    by blast
  have "llama3_segments T L cpts (offset # offsets) start out = Some (Inr (out @ (ys @ zs)))"
    using Cons.prems l ys(1) zs(1) by (simp add: S_def [symmetric] st_def [symmetric])
  with ys zs show ?case by (intro exI [of _ "ys @ zs"]) simp
qed

lemma llama3_returns:
  assumes "unicode_cpts_from_utf8 text = Inr cpts" and "sum_list offsets = length cpts"
  shows "\<exists>out. unicode_regex_split_custom_llama3 T L text offsets = Some (Inr out)
           \<and> sum_list out = length cpts \<and> list_all (\<lambda>y. 0 < y) out"
  using llama3_segments_returns [of 0 offsets cpts T L "[]"] assms
  by (auto simp: unicode_regex_split_custom_llama3_def)

subsection \<open>The regex fallback\<close>

lemma matches_in_order_le: "matches_in_order s offset ms \<Longrightarrow> s \<le> int offset"
proof (induction ms arbitrary: s)
  case Nil
  then show ?case by simp
next
  case (Cons m ms)
  obtain position len where m: "m = (position, len)" by (cases m)
  from Cons.prems have "s \<le> position" "0 \<le> len" "matches_in_order (position + len) offset ms"
    by (simp_all add: m)
  with Cons.IH [of "position + len"] show ?case by linarith
qed

lemma to_size_t_id: "0 \<le> i \<Longrightarrow> i < 2 ^ 64 \<Longrightarrow> to_size_t i = nat i"
  by (simp add: to_size_t_def)

lemma stl_matches_sum:
  assumes "matches_in_order s offset ms" and "0 \<le> s" and "offset < 2 ^ 64"
    and "stl_matches ms s out = (s', out')"
  shows "s \<le> s' \<and> s' \<le> int offset \<and> sum_list out' = sum_list out + nat (s' - s)"
  using assms
proof (induction ms arbitrary: s out)
  case Nil
  then show ?case by simp
next
  case (Cons m ms)
  obtain position len where m: "m = (position, len)" by (cases m)
  from Cons.prems(1) have o: "s \<le> position" "0 \<le> len" "matches_in_order (position + len) offset ms"
    by (simp_all add: m)
  from matches_in_order_le [OF o(3)] have le: "position + len \<le> int offset" .
  have lt: "int offset < 2 ^ 64" using Cons.prems(3) by simp
  define out1 where
    "out1 = (if position > s then out @ [to_size_t (position - s)] else out) @ [to_size_t len]"
  have s1: "sum_list out1 = sum_list out + nat (position + len - s)"
    using o le lt Cons.prems(2) by (auto simp: out1_def to_size_t_id nat_add_distrib)
  have "stl_matches ms (position + len) out1 = (s', out')"
    using Cons.prems(4) by (simp add: m out1_def)
  from Cons.IH [OF o(3) _ Cons.prems(3) this] o Cons.prems(2)
  have "position + len \<le> s' \<and> s' \<le> int offset
          \<and> sum_list out' = sum_list out1 + nat (s' - (position + len))"
    by simp
  with s1 o Cons.prems(2) show ?case by (auto simp: nat_add_distrib [symmetric])
qed

lemma stl_segments_sum:
  assumes "iterator_in_order E" and "length text < 2 ^ 64"
    and "stl_segments E text regex_expr offsets start out = Inr out'"
  shows "sum_list out' = sum_list out + sum_list offsets"
  using assms(3)
proof (induction offsets arbitrary: start out)
  case Nil
  then show ?case by simp
next
  case (Cons offset offsets)
  from Cons.prems have inside: "start + offset \<le> length text"
    by (auto split: if_splits)
  then have olt: "offset < 2 ^ 64" using assms(2) by simp
  define subject where "subject = take offset (drop start text)"
  have len: "length subject = offset" using inside by (simp add: subject_def)
  from Cons.prems inside obtain ms where ms: "rx_matches E regex_expr subject = Inr ms"
    by (auto simp: subject_def split: sum.splits)
  from assms(1) ms len have io: "matches_in_order 0 offset ms"
    by (auto simp: iterator_in_order_def)
  obtain s' out1 where sm: "stl_matches ms 0 out = (s', out1)" by (cases "stl_matches ms 0 out")
  from stl_matches_sum [OF io _ olt sm]
  have b: "0 \<le> s'" "s' \<le> int offset" "sum_list out1 = sum_list out + nat s'" by simp_all
  define out2 where
    "out2 = (if s' < int offset then out1 @ [to_size_t (int offset - s')] else out1)"
  have s2: "sum_list out2 = sum_list out + offset"
    using b olt by (auto simp: out2_def to_size_t_id)
  have "stl_segments E text regex_expr offsets (start + offset) out2 = Inr out'"
    using Cons.prems inside ms sm by (simp add: subject_def [symmetric] out2_def)
  from Cons.IH [OF this] s2 show ?case by simp
qed

lemma stl_segments_returns:
  assumes "engine_succeeds E regex_expr" and "start + sum_list offsets \<le> length text"
  shows "\<exists>out'. stl_segments E text regex_expr offsets start out = Inr out'"
  using assms(2)
proof (induction offsets arbitrary: start out)
  case Nil
  then show ?case by simp
next
  case (Cons offset offsets)
  from assms(1) obtain ms where
    ms: "rx_matches E regex_expr (take offset (drop start text)) = Inr ms"
    unfolding engine_succeeds_def by blast
  obtain s' out1 where sm: "stl_matches ms 0 out = (s', out1)" by (cases "stl_matches ms 0 out")
  have "start + offset + sum_list offsets \<le> length text" using Cons.prems by simp
  from Cons.IH [OF this] Cons.prems ms sm show ?case by simp
qed

subsection \<open>Running the splitters on a text\<close>

lemmas llama3_eval =
  llama3_loop.simps llama3_step_def llama3_contraction_def get_cpt_def get_flags_def
  unicode_cpt_flags_def MAX_CODEPOINTS_def llama3_numbers.simps llama3_letters.simps
  skip_others.simps skip_newlines.simps llama3_whitespaces.simps add_token_def Let_def
  is_other_def unicode_tolower_def

lemmas gpt2_eval =
  gpt2_loop.simps gpt2_step_def gpt2_contraction_def get_cpt_def get_flags_def
  unicode_cpt_flags_def MAX_CODEPOINTS_def skip_letters.simps skip_numbers.simps
  skip_others.simps count_whitespaces.simps add_token_def Let_def is_other_def

lemmas sample_eval = ascii_flags_def ascii_lowercase_def no_flags_def undef_def

lemmas decode_eval =
  bytes_of_def unicode_cpts_from_utf8_def cpts_loop.simps unicode_cpt_from_utf8_def char_int_def

lemma decode_digits:
  "unicode_cpts_from_utf8 (bytes_of ''1234567'') = Inr [0x31, 0x32, 0x33, 0x34, 0x35, 0x36, 0x37]"
  by (simp add: decode_eval)

lemma decode_space_quote_s: "unicode_cpts_from_utf8 (bytes_of '' 's'') = Inr [0x20, 0x27, 0x73]"
  by (simp add: decode_eval)

lemma decode_a_b: "unicode_cpts_from_utf8 [0x61, 0x20, 0x62] = Inr [0x61, 0x20, 0x62]"
  by (simp add: decode_eval)

section \<open>Claims about the splitters\<close>

text \<open>
  C1. Let the text decode to the codepoints \<open>cpts\<close> and let the offsets sum to their number.
  Then the GPT-2 splitter and the LLaMA-3 splitter return an offset list with the same sum.
  So does the regex fallback, on a subject of one character per codepoint, whenever it
  returns: the regex library is a parameter, whose iterator yields its matches in order, and
  the fallback returns whenever the library does not throw.
\<close>

theorem offset_conservation:
  assumes "unicode_cpts_from_utf8 text = Inr cpts" and "sum_list offsets = length cpts"
    and "iterator_in_order E" and "length subject = length cpts" and "length cpts < 2 ^ 64"
  shows "(\<exists>out. unicode_regex_split_custom_gpt2 T text offsets = Some (Inr out)
            \<and> sum_list out = length cpts)
       \<and> (\<exists>out. unicode_regex_split_custom_llama3 T L text offsets = Some (Inr out)
            \<and> sum_list out = length cpts)
       \<and> (\<forall>out. unicode_regex_split_stl E subject regex_expr offsets = Inr out
            \<longrightarrow> sum_list out = length cpts)
       \<and> (engine_succeeds E regex_expr
            \<longrightarrow> (\<exists>out. unicode_regex_split_stl E subject regex_expr offsets = Inr out))"
proof (intro conjI allI impI)
  show "\<exists>out. unicode_regex_split_custom_gpt2 T text offsets = Some (Inr out)
          \<and> sum_list out = length cpts"
    using gpt2_returns [OF assms(1,2)] by blast
  show "\<exists>out. unicode_regex_split_custom_llama3 T L text offsets = Some (Inr out)
          \<and> sum_list out = length cpts"
    using llama3_returns [OF assms(1,2)] by blast
  show "sum_list out = length cpts"
    if "unicode_regex_split_stl E subject regex_expr offsets = Inr out" for out
  proof -
    from that have "stl_segments E subject regex_expr offsets 0 [] = Inr out"
      by (auto simp: unicode_regex_split_stl_def split: option.splits)
    from stl_segments_sum [OF assms(3) _ this] assms(2,4,5) show ?thesis by simp
  qed
  show "\<exists>out. unicode_regex_split_stl E subject regex_expr offsets = Inr out"
    if "engine_succeeds E regex_expr"
    using stl_segments_returns [OF that, of 0 offsets subject "[]"] that assms(2,4)
    by (simp add: unicode_regex_split_stl_def engine_succeeds_def)
qed

lemma first_char_engine_in_order: "iterator_in_order (first_char_engine :: 'c regex_engine)"
  by (auto simp: iterator_in_order_def first_char_engine_def split: if_splits)
     (simp add: Suc_le_eq)

theorem offset_conservation_witness:
  "unicode_cpts_from_utf8 [0x61, 0x20, 0x62] = Inr [0x61, 0x20, 0x62]
   \<and> sum_list [1, 2] = length [0x61 :: cpt, 0x20, 0x62]
   \<and> iterator_in_order (first_char_engine :: byte regex_engine)
   \<and> length [0x61 :: byte, 0x20, 0x62] = length [0x61 :: cpt, 0x20, 0x62]
   \<and> length [0x61 :: cpt, 0x20, 0x62] < 2 ^ 64
   \<and> unicode_regex_split_custom_gpt2 ascii_flags [0x61, 0x20, 0x62] [1, 2] = Some (Inr [1, 2])
   \<and> unicode_regex_split_custom_llama3 ascii_flags ascii_lowercase [0x61, 0x20, 0x62] [1, 2]
       = Some (Inr [1, 2])
   \<and> engine_succeeds (first_char_engine :: byte regex_engine) [0x2E]
   \<and> unicode_regex_split_stl first_char_engine [0x61 :: byte, 0x20, 0x62] [0x2E] [1, 2]
       = Inr [1, 1, 1]
   \<and> sum_list [1, 2 :: nat] = 3 \<and> sum_list [1, 1, 1 :: nat] = 3"
proof -
  have s: "sum_list [1, 2] = length [0x61 :: cpt, 0x20, 0x62]" by simp
  have l: "length [0x61 :: byte, 0x20, 0x62] = length [0x61 :: cpt, 0x20, 0x62]" by simp
  have b: "length [0x61 :: cpt, 0x20, 0x62] < 2 ^ 64" by simp
  have g: "unicode_regex_split_custom_gpt2 ascii_flags [0x61, 0x20, 0x62] [1, 2]
       = Some (Inr [1, 2])"
    by (simp add: unicode_regex_split_custom_gpt2_def decode_a_b gpt2_eval sample_eval)
  have m: "unicode_regex_split_custom_llama3 ascii_flags ascii_lowercase [0x61, 0x20, 0x62] [1, 2]
       = Some (Inr [1, 2])"
    by (simp add: unicode_regex_split_custom_llama3_def decode_a_b llama3_eval sample_eval)
  have c: "engine_succeeds (first_char_engine :: byte regex_engine) [0x2E]"
    by (simp add: engine_succeeds_def first_char_engine_def)
  have e: "unicode_regex_split_stl first_char_engine [0x61 :: byte, 0x20, 0x62] [0x2E] [1, 2]
       = Inr [1, 1, 1]"
    by (simp add: unicode_regex_split_stl_def first_char_engine_def to_size_t_def)
  from offset_conservation [OF decode_a_b s first_char_engine_in_order l b,
      of ascii_flags ascii_lowercase "[0x2E]"]
  show ?thesis using decode_a_b first_char_engine_in_order g m c e by simp
qed

text \<open>
  C10. Under the same hypotheses the offset lists that the GPT-2 splitter and the LLaMA-3
  splitter return have no zero: no token is empty.
\<close>

theorem no_empty_token:
  assumes "unicode_cpts_from_utf8 text = Inr cpts" and "sum_list offsets = length cpts"
  shows "(\<exists>out. unicode_regex_split_custom_gpt2 T text offsets = Some (Inr out)
            \<and> list_all (\<lambda>len. 0 < len) out)
       \<and> (\<exists>out. unicode_regex_split_custom_llama3 T L text offsets = Some (Inr out)
            \<and> list_all (\<lambda>len. 0 < len) out)"
  using gpt2_returns [OF assms] llama3_returns [OF assms] by blast

theorem no_empty_token_witness:
  "unicode_cpts_from_utf8 [0x61, 0x20, 0x62] = Inr [0x61, 0x20, 0x62]
   \<and> sum_list [0, 3] = length [0x61 :: cpt, 0x20, 0x62]
   \<and> unicode_regex_split_custom_gpt2 ascii_flags [0x61, 0x20, 0x62] [0, 3] = Some (Inr [1, 2])
   \<and> unicode_regex_split_custom_llama3 ascii_flags ascii_lowercase [0x61, 0x20, 0x62] [0, 3]
       = Some (Inr [1, 2])
   \<and> list_all (\<lambda>len. 0 < len) [1, 2 :: nat]"
proof -
  have s: "sum_list [0, 3] = length [0x61 :: cpt, 0x20, 0x62]" by simp
  have g: "unicode_regex_split_custom_gpt2 ascii_flags [0x61, 0x20, 0x62] [0, 3]
       = Some (Inr [1, 2])"
    by (simp add: unicode_regex_split_custom_gpt2_def decode_a_b gpt2_eval sample_eval)
  have m: "unicode_regex_split_custom_llama3 ascii_flags ascii_lowercase [0x61, 0x20, 0x62] [0, 3]
       = Some (Inr [1, 2])"
    by (simp add: unicode_regex_split_custom_llama3_def decode_a_b llama3_eval sample_eval)
  from no_empty_token [OF decode_a_b s, of ascii_flags ascii_lowercase]
  show ?thesis using decode_a_b g m by simp
qed

text \<open>
  C6. On the text \<open>1234567\<close> with the offsets \<open>[7]\<close> the LLaMA-3 splitter returns
  \<open>[3, 3, 1]\<close>, for every flag table in which the digits \<open>1\<close> to \<open>7\<close> are numbers and for every
  lowercase map.
\<close>

theorem llama3_digit_run:
  assumes "list_all (\<lambda>c. is_number (T c)) [0x31, 0x32, 0x33, 0x34, 0x35, 0x36, 0x37]"
  shows "unicode_regex_split_custom_llama3 T L (bytes_of ''1234567'') [7] = Some (Inr [3, 3, 1])"
  using assms by (simp add: unicode_regex_split_custom_llama3_def decode_digits llama3_eval)

theorem llama3_digit_run_witness:
  "list_all (\<lambda>c. is_number (ascii_flags c)) [0x31, 0x32, 0x33, 0x34, 0x35, 0x36, 0x37]
   \<and> unicode_regex_split_custom_llama3 ascii_flags ascii_lowercase (bytes_of ''1234567'') [7]
       = Some (Inr [3, 3, 1])"
  using llama3_digit_run [of ascii_flags ascii_lowercase]
  by (simp add: ascii_flags_def no_flags_def)

text \<open>
  C7, as the code has it. When the cursor of the LLaMA-3 loop stands on an apostrophe (every
  token emitted so far ends there) and the apostrophe is followed, inside the segment, by a
  codepoint whose \<^verbatim>\<open>unicode_tolower\<close> is \<open>s\<close>, \<open>t\<close>, \<open>m\<close> or \<open>d\<close> (\<open>k = 2\<close>), or by two codepoints
  whose \<^verbatim>\<open>unicode_tolower\<close> are \<open>re\<close>, \<open>ve\<close> or \<open>ll\<close> (\<open>k = 3\<close>), the iteration emits one token of
  exactly \<open>k\<close> codepoints that starts at the apostrophe, and the loop returns with that token
  next in its output. An apostrophe that an earlier token has taken yields no such token:
  the text \<open> 's\<close> is split into the space with the apostrophe, and \<open>s\<close>.
\<close>

theorem llama3_contraction_token:
  assumes "prev_end st = pos" and "get_cpt S pos = 0x27" and "pos + 1 < offset_end S"
    and "(k = 2 \<and> unicode_tolower L (get_cpt S (pos + 1)) \<in> {0x73, 0x74, 0x6D, 0x64}) \<or>
         (k = 3 \<and> pos + 2 < offset_end S \<and>
          (unicode_tolower L (get_cpt S (pos + 1)), unicode_tolower L (get_cpt S (pos + 2)))
            \<in> {(0x72, 0x65), (0x76, 0x65), (0x6C, 0x6C)})"
  shows "llama3_step T L S pos st =
           Inr (pos + k, \<lparr>bpe_offsets = bpe_offsets st @ [k], prev_end = pos + k\<rparr>)
       \<and> (\<exists>rest. llama3_loop T L S pos st =
             Some (Inr \<lparr>bpe_offsets = bpe_offsets st @ k # rest, prev_end = offset_end S\<rparr>))"
proof -
  have c: "llama3_contraction L S pos = Some k"
    using assms(2,3,4) by (auto simp: llama3_contraction_def Let_def)
  from llama3_contraction_bounds [OF c] have k: "0 < k" "pos + k \<le> offset_end S" by auto
  define st' where "st' = \<lparr>bpe_offsets = bpe_offsets st @ [k], prev_end = pos + k\<rparr>"
  have "add_token S (pos + k) st = Inr (k, st')"
    using add_token_one [of st "pos + k" S] k assms(1) by (simp add: st'_def)
  then have s: "llama3_step T L S pos st = Inr (pos + k, st')"
    using c by (simp add: llama3_step_def)
  from llama3_loop_returns [of "pos + k" S st' T L] k obtain st'' where
    r: "llama3_loop T L S (pos + k) st' = Some (Inr st'')" "prev_end st'' = offset_end S"
      "extends st' st''"
    by (auto simp: st'_def)
  from r(3) obtain rest where "bpe_offsets st'' = bpe_offsets st @ k # rest"
    by (auto simp: extends_def st'_def)
  with r(2) have e: "st'' = \<lparr>bpe_offsets = bpe_offsets st @ k # rest, prev_end = offset_end S\<rparr>"
    by simp
  have "llama3_loop T L S pos st = llama3_loop T L S (pos + k) st'"
    using k s by (subst llama3_loop.simps) simp
  with r(1) e have "llama3_loop T L S pos st =
      Some (Inr \<lparr>bpe_offsets = bpe_offsets st @ k # rest, prev_end = offset_end S\<rparr>)"
    by simp
  with s show ?thesis unfolding st'_def by (intro conjI exI [of _ rest])
qed

theorem llama3_contraction_token_witness:
  "prev_end \<lparr>bpe_offsets = [], prev_end = 0\<rparr> = 0
   \<and> get_cpt \<lparr>cpts_of = [0x27, 0x53, 0x20], offset_ini = 0, offset_end = 3\<rparr> 0 = 0x27
   \<and> (0 :: nat) + 1 < offset_end \<lparr>cpts_of = [0x27, 0x53, 0x20], offset_ini = 0, offset_end = 3\<rparr>
   \<and> unicode_tolower ascii_lowercase
        (get_cpt \<lparr>cpts_of = [0x27, 0x53, 0x20], offset_ini = 0, offset_end = 3\<rparr> (0 + 1)) = 0x73
   \<and> llama3_step ascii_flags ascii_lowercase
        \<lparr>cpts_of = [0x27, 0x53, 0x20], offset_ini = 0, offset_end = 3\<rparr> 0
        \<lparr>bpe_offsets = [], prev_end = 0\<rparr>
       = Inr (2, \<lparr>bpe_offsets = [2], prev_end = 2\<rparr>)
   \<and> (\<exists>rest. llama3_loop ascii_flags ascii_lowercase
          \<lparr>cpts_of = [0x27, 0x53, 0x20], offset_ini = 0, offset_end = 3\<rparr> 0
          \<lparr>bpe_offsets = [], prev_end = 0\<rparr>
         = Some (Inr \<lparr>bpe_offsets = 2 # rest, prev_end = 3\<rparr>))"
  using llama3_contraction_token [of "\<lparr>bpe_offsets = [], prev_end = 0\<rparr>" 0
      "\<lparr>cpts_of = [0x27, 0x53, 0x20], offset_ini = 0, offset_end = 3\<rparr>" 2 ascii_lowercase
      ascii_flags]
  by (simp add: get_cpt_def unicode_tolower_def ascii_lowercase_def)

theorem contraction_after_space_not_split:
  "unicode_cpts_from_utf8 (bytes_of '' 's'') = Inr [0x20, 0x27, 0x73]
   \<and> unicode_tolower ascii_lowercase 0x73 = 0x73
   \<and> unicode_regex_split_custom_llama3 ascii_flags ascii_lowercase (bytes_of '' 's'') [3]
       = Some (Inr [2, 1])"
  by (simp add: unicode_regex_split_custom_llama3_def decode_space_quote_s llama3_eval
      sample_eval)

section \<open>NFD normalization\<close>

lemma upper_bound_le: "upper_bound ranges cpt \<le> length ranges"
  by (simp add: upper_bound_def length_takeWhile_le)

lemma upper_bound_pos:
  assumes "nfd_table_ok ranges"
  shows "0 < upper_bound ranges cpt"
proof -
  from assms obtain r rs where r: "ranges = r # rs" "range_first r = 0"
    by (cases ranges) (auto simp: nfd_table_ok_def)
  then show ?thesis by (simp add: upper_bound_def)
qed

lemma upper_bound_in_table:
  assumes "nfd_table_ok ranges"
  shows "ranges ! (upper_bound ranges cpt - 1) \<in> set ranges"
proof -
  have "upper_bound ranges cpt - 1 < length ranges"
    using upper_bound_pos [OF assms, of cpt] upper_bound_le [of ranges cpt] by simp
  then show ?thesis by simp
qed

lemma normalize_nfd_loop_eq:
  assumes "nfd_table_ok ranges" and "length result = length cpts" and "i \<le> length cpts"
  shows "normalize_nfd_loop ranges cpts i result
           = Inr (take i result @ map (nfd_of ranges) (drop i cpts))"
  using assms(2,3)
proof (induction "length cpts - i" arbitrary: i result)
  case 0
  then show ?case by (simp add: normalize_nfd_loop.simps [of ranges cpts i result])
next
  case (Suc n)
  then have i: "i < length cpts" by simp
  define v where "v = nfd_of ranges (cpts ! i)"
  have ub: "upper_bound ranges (cpts ! i) \<noteq> 0"
    using upper_bound_pos [OF assms(1), of "cpts ! i"] by simp
  have step: "normalize_nfd_loop ranges cpts i result
                = normalize_nfd_loop ranges cpts (i + 1) (result[i := v])"
    using i ub
    by (simp add: normalize_nfd_loop.simps [of ranges cpts i result] Let_def v_def nfd_of_def)
  have "n = length cpts - (i + 1)" using Suc.hyps(2) by simp
  from Suc.hyps(1) [OF this, of "result[i := v]"] Suc.prems i
  have "normalize_nfd_loop ranges cpts (i + 1) (result[i := v])
          = Inr (take (i + 1) (result[i := v]) @ map (nfd_of ranges) (drop (i + 1) cpts))"
    by simp
  moreover have "take (i + 1) (result[i := v]) = take i result @ [v]"
    using i Suc.prems(1) by (simp add: take_Suc_conv_app_nth)
  moreover have "map (nfd_of ranges) (drop i cpts)
                   = v # map (nfd_of ranges) (drop (i + 1) cpts)"
    using i by (simp add: v_def Cons_nth_drop_Suc [symmetric])
  ultimately show ?case using step by simp
qed

lemma normalize_nfd_eq:
  assumes "nfd_table_ok ranges"
  shows "unicode_cpts_normalize_nfd ranges cpts = Inr (map (nfd_of ranges) cpts)"
  using normalize_nfd_loop_eq [OF assms, of "replicate (length cpts) 0" cpts 0]
  by (simp add: unicode_cpts_normalize_nfd_def)

lemma nfd_of_fixed:
  assumes "nfd_table_ok ranges" and "nfd_targets_fixed ranges"
  shows "nfd_of ranges (nfd_of ranges c) = nfd_of ranges c"
proof (cases "nfd_of ranges c = c")
  case True
  then show ?thesis by simp
next
  case False
  define r where "r = ranges ! (upper_bound ranges c - 1)"
  have t: "nfd_of ranges c = nfd r"
    using False by (auto simp: nfd_of_def Let_def r_def split: if_splits)
  have r: "r \<in> set ranges" unfolding r_def by (rule upper_bound_in_table [OF assms(1)])
  define r' where "r' = ranges ! (upper_bound ranges (nfd r) - 1)"
  have r': "r' \<in> set ranges" unfolding r'_def by (rule upper_bound_in_table [OF assms(1)])
  have "nfd_of ranges (nfd r) = nfd r"
  proof (cases "range_first r' \<le> nfd r \<and> nfd r \<le> range_last r'")
    case True
    with assms(2) r r' have "nfd r' = nfd r" unfolding nfd_targets_fixed_def by blast
    with True show ?thesis unfolding r'_def by (simp add: nfd_of_def Let_def)
  next
    case False
    then show ?thesis unfolding r'_def by (auto simp: nfd_of_def Let_def)
  qed
  with t show ?thesis by simp
qed

text \<open>
  C9. On a table that is sorted, starts at codepoint 0 and maps no decomposition target
  elsewhere, \<^verbatim>\<open>unicode_cpts_normalize_nfd\<close> returns a sequence, and returns the same sequence
  when it is applied to it again.
\<close>

theorem normalize_nfd_idempotent:
  assumes "nfd_table_ok ranges" and "nfd_targets_fixed ranges"
  shows "\<exists>y. unicode_cpts_normalize_nfd ranges x = Inr y
           \<and> unicode_cpts_normalize_nfd ranges y = Inr y"
proof -
  have "map (nfd_of ranges) (map (nfd_of ranges) x) = map (nfd_of ranges) x"
    using nfd_of_fixed [OF assms] by simp
  then show ?thesis by (simp add: normalize_nfd_eq [OF assms(1)])
qed

theorem normalize_nfd_idempotent_witness:
  "nfd_table_ok sample_ranges_nfd \<and> nfd_targets_fixed sample_ranges_nfd
   \<and> unicode_cpts_normalize_nfd sample_ranges_nfd [0xC1, 0x62, 0xC7] = Inr [0x41, 0x62, 0x43]
   \<and> unicode_cpts_normalize_nfd sample_ranges_nfd [0x41, 0x62, 0x43] = Inr [0x41, 0x62, 0x43]"
proof -
  have ok: "nfd_table_ok sample_ranges_nfd"
    by (simp add: nfd_table_ok_def sample_ranges_nfd_def)
  have fixed: "nfd_targets_fixed sample_ranges_nfd"
    by (simp add: nfd_targets_fixed_def sample_ranges_nfd_def)
  have n: "unicode_cpts_normalize_nfd sample_ranges_nfd [0xC1, 0x62, 0xC7] = Inr [0x41, 0x62, 0x43]"
    by (simp only: normalize_nfd_eq [OF ok])
       (simp add: nfd_of_def upper_bound_def sample_ranges_nfd_def)
  from normalize_nfd_idempotent [OF ok fixed, of "[0xC1, 0x62, 0xC7]"] n ok fixed
  show ?thesis by simp
qed

section \<open>The top-level driver\<close>

lemma regex_loop_append:
  "regex_loop T L E W from_bytes text text_collapsed (before @ after) offsets =
     (case regex_loop T L E W from_bytes text text_collapsed before offsets of
        None \<Rightarrow> None
      | Some (Inl e) \<Rightarrow> Some (Inl e)
      | Some (Inr offs) \<Rightarrow> regex_loop T L E W from_bytes text text_collapsed after offs)"
  by (induction before arbitrary: offsets) (auto split: option.splits sum.splits)

lemma custom_not_named:
  assumes "regex_expr \<noteq> gpt2_regex" and "regex_expr \<noteq> llama3_regex"
    and "regex_expr \<noteq> llama3_regex_alt"
  shows "unicode_regex_split_custom T L text regex_expr offsets = Some (Inr [])"
  using assms by (simp add: unicode_regex_split_custom_def)

lemma fallback_mixed:
  assumes "uses_category regex_expr" and "unicode_cpts_from_utf8 regex_expr = Inr cpts_regex"
    and "\<exists>c \<in> set cpts_regex. 128 \<le> c"
  shows "regex_fallback E W from_bytes text text_collapsed regex_expr offsets
           = Inl MixedCategoryAndLiteral"
  using assms by (simp add: regex_fallback_def regex_fallback_body_def list_ex_iff)

text \<open>
  C8, as the code has it. \<^verbatim>\<open>unicode_regex_split\<close> decodes the text first, handles the
  patterns in order, and decodes a pattern before it looks for a codepoint from 128 on. So
  the call fails with \<open>MixedCategoryAndLiteral\<close> when the text is valid UTF-8, the patterns
  before this one are handled without an error, and the pattern is none of the three named
  ones, contains \<^verbatim>\<open>\p{N}\<close>, \<^verbatim>\<open>\p{L}\<close> or \<^verbatim>\<open>\p{P}\<close>, and is valid UTF-8 with a codepoint from
  128 on. On a text that is not valid UTF-8 the call fails with \<open>InvalidUtf8\<close> instead.
\<close>

theorem mixed_category_and_literal:
  assumes "unicode_cpts_from_utf8 text = Inr cpts"
    and "regex_loop T L E W from_bytes text (map (collapse_cpt T) cpts) before [length cpts]
           = Some (Inr offsets)"
    and "regex_expr \<noteq> gpt2_regex \<and> regex_expr \<noteq> llama3_regex \<and> regex_expr \<noteq> llama3_regex_alt"
    and "uses_category regex_expr"
    and "unicode_cpts_from_utf8 regex_expr = Inr cpts_regex"
    and "\<exists>c \<in> set cpts_regex. 128 \<le> c"
  shows "unicode_regex_split T L E W from_bytes text (before @ regex_expr # after)
           = Some (Inl MixedCategoryAndLiteral)"
proof -
  have need: "list_ex uses_category (before @ regex_expr # after)"
    using assms(4) by (simp add: list_ex_iff)
  have "regex_loop T L E W from_bytes text (map (collapse_cpt T) cpts) (regex_expr # after) offsets
          = Some (Inl MixedCategoryAndLiteral)"
    using custom_not_named [of regex_expr T L "text" offsets] assms(3)
      fallback_mixed [OF assms(4,5,6)]
    by simp
  then have "regex_loop T L E W from_bytes text (map (collapse_cpt T) cpts)
               (before @ regex_expr # after) [length cpts] = Some (Inl MixedCategoryAndLiteral)"
    using assms(2) by (simp add: regex_loop_append)
  then show ?thesis
    using assms(1) need by (simp add: unicode_regex_split_def Let_def)
qed

lemma mixed_pattern_facts:
  "mixed_pattern \<noteq> gpt2_regex \<and> mixed_pattern \<noteq> llama3_regex
     \<and> mixed_pattern \<noteq> llama3_regex_alt"
  "uses_category mixed_pattern"
  "unicode_cpts_from_utf8 mixed_pattern = Inr [0x5C, 0x70, 0x7B, 0x4C, 0x7D, 0xE9]"
  by (simp_all add: mixed_pattern_def gpt2_regex_def llama3_regex_def llama3_regex_alt_def
      bytes_of_def uses_category_def k_ucat_enum_def unicode_cpts_from_utf8_def cpts_loop.simps
      unicode_cpt_from_utf8_def char_int_def)

theorem mixed_category_and_literal_witness:
  "unicode_cpts_from_utf8 [0x61, 0x20, 0x62] = Inr [0x61, 0x20, 0x62]
   \<and> regex_loop ascii_flags ascii_lowercase first_char_engine first_char_engine
        unicode_cpts_from_utf8 [0x61, 0x20, 0x62]
        (map (collapse_cpt ascii_flags) [0x61, 0x20, 0x62]) [] [length [0x61 :: cpt, 0x20, 0x62]]
       = Some (Inr [3])
   \<and> mixed_pattern \<noteq> gpt2_regex \<and> mixed_pattern \<noteq> llama3_regex
   \<and> mixed_pattern \<noteq> llama3_regex_alt
   \<and> uses_category mixed_pattern
   \<and> unicode_cpts_from_utf8 mixed_pattern = Inr [0x5C, 0x70, 0x7B, 0x4C, 0x7D, 0xE9]
   \<and> (\<exists>c \<in> set [0x5C, 0x70, 0x7B, 0x4C, 0x7D, 0xE9 :: cpt]. 128 \<le> c)
   \<and> unicode_regex_split ascii_flags ascii_lowercase first_char_engine first_char_engine
        unicode_cpts_from_utf8 [0x61, 0x20, 0x62] ([] @ mixed_pattern # [])
       = Some (Inl MixedCategoryAndLiteral)"
proof -
  have l: "regex_loop ascii_flags ascii_lowercase first_char_engine first_char_engine
        unicode_cpts_from_utf8 [0x61, 0x20, 0x62]
        (map (collapse_cpt ascii_flags) [0x61, 0x20, 0x62]) [] [length [0x61 :: cpt, 0x20, 0x62]]
       = Some (Inr [3])"
    by simp
  have c: "\<exists>c \<in> set [0x5C, 0x70, 0x7B, 0x4C, 0x7D, 0xE9 :: cpt]. 128 \<le> c" by simp
  from mixed_category_and_literal [OF decode_a_b l mixed_pattern_facts c, of "[]"]
    decode_a_b l mixed_pattern_facts c
  show ?thesis by simp
qed

theorem invalid_text_fails_first:
  "mixed_pattern \<noteq> gpt2_regex \<and> mixed_pattern \<noteq> llama3_regex
   \<and> mixed_pattern \<noteq> llama3_regex_alt
   \<and> uses_category mixed_pattern
   \<and> unicode_cpts_from_utf8 mixed_pattern = Inr [0x5C, 0x70, 0x7B, 0x4C, 0x7D, 0xE9]
   \<and> (128 :: cpt) \<le> 0xE9
   \<and> unicode_regex_split ascii_flags ascii_lowercase first_char_engine first_char_engine
        unicode_cpts_from_utf8 [0xFF] [mixed_pattern]
       = Some (Inl InvalidUtf8)"
proof -
  have "unicode_cpts_from_utf8 [0xFF] = Inl InvalidUtf8"
    by (simp add: unicode_cpts_from_utf8_def cpts_loop.simps unicode_cpt_from_utf8_def
        char_int_def)
  then show ?thesis
    using mixed_pattern_facts by (simp add: unicode_regex_split_def Let_def)
qed


end
